theory Spec2Isabelle
  imports Main "HOL-Library.Word" "HOL-Library.Multiset"
begin

section \<open>The KD-tree of \<^verbatim>\<open>openMVG/localization/KDTree.h\<close>\<close>

subsection \<open>Data model\<close>

text \<open>
  \<^verbatim>\<open>U8Descriptor\<close> is \<^verbatim>\<open>std::array<unsigned char, 128>\<close>: component \<open>i\<close> of a
  descriptor \<open>d\<close> is \<open>d i\<close>, read for \<open>i < 128\<close> only. \<^verbatim>\<open>BoundingBox\<close> is the
  struct of two descriptors.

  Indices into the node vector and into the association list are natural numbers. The
  header computes with \<^verbatim>\<open>unsigned\<close>; the link field of a node has 31 bits, so a tree
  whose links are what they stand for has fewer than \<open>2\<^sup>3\<^sup>1\<close> nodes, and neither
  \<^verbatim>\<open>n + 1\<close> for an index \<open>n\<close> that \<^verbatim>\<open>at\<close> has accepted nor the cast of the node count
  wraps.
\<close>

type_synonym U8Descriptor = "nat \<Rightarrow> 8 word"

definition DESCRIPTOR_SIZE :: nat where
  "DESCRIPTOR_SIZE = 128"

record BoundingBox =
  bmin :: U8Descriptor
  bmax :: U8Descriptor

record DescriptorAssociation =
  global_index :: nat
  image_index :: "16 word"
  local_index :: "16 word"

text \<open>
  \<^verbatim>\<open>struct Node\<close> is a tagged union: the bit \<^verbatim>\<open>leaf\<close> selects between
  \<^verbatim>\<open>{index = right link, dv = {dim, val}}\<close> and \<^verbatim>\<open>{index = begin, end}\<close>.
\<close>

datatype Node =
  Internal (right_link: nat) (split_dim: "8 word") (split_val: "8 word")
| LeafNode (list_begin: nat) (list_end: nat)

fun leaf :: "Node \<Rightarrow> bool" where
  "leaf (LeafNode b e) = True"
| "leaf (Internal r d v) = False"

record KDTree =
  descriptors :: "U8Descriptor list"
  dcount :: nat
  bbs :: "BoundingBox list"
  nodes :: "Node list"
  assocs :: "DescriptorAssociation list"

text \<open>
  The two exceptions of the header, both logic errors of the C++ library:
  \<^verbatim>\<open>std::vector::at\<close> throws \<^verbatim>\<open>std::out_of_range\<close>, a class derived from
  \<^verbatim>\<open>std::logic_error\<close>, and \<^verbatim>\<open>POPSIFT_KDASSERT\<close> calls \<^verbatim>\<open>assert_fail\<close>, which
  throws \<^verbatim>\<open>std::logic_error\<close> itself. A call that throws returns no value: the
  result of an accessor is the exception (\<open>Inl\<close>) or the value (\<open>Inr\<close>).
\<close>

datatype logic_error = OutOfRange | AssertionFailed

subsection \<open>Accessors\<close>

definition at_vec :: "'a list \<Rightarrow> nat \<Rightarrow> logic_error + 'a" where
  "at_vec xs n = (if n < length xs then Inr (xs ! n) else Inl OutOfRange)"

definition Root :: "KDTree \<Rightarrow> nat" where
  "Root t = 0"

definition NodeCount :: "KDTree \<Rightarrow> nat" where
  "NodeCount t = length (nodes t)"

definition IsLeaf :: "KDTree \<Rightarrow> nat \<Rightarrow> logic_error + bool" where
  "IsLeaf t n = (case at_vec (nodes t) n of Inl e \<Rightarrow> Inl e | Inr nd \<Rightarrow> Inr (leaf nd))"

definition Left :: "KDTree \<Rightarrow> nat \<Rightarrow> logic_error + nat" where
  "Left t n = (case at_vec (nodes t) n of Inl e \<Rightarrow> Inl e
     | Inr nd \<Rightarrow> if leaf nd then Inl AssertionFailed else Inr (n + 1))"

definition Right :: "KDTree \<Rightarrow> nat \<Rightarrow> logic_error + nat" where
  "Right t n = (case at_vec (nodes t) n of Inl e \<Rightarrow> Inl e
     | Inr nd \<Rightarrow> if leaf nd then Inl AssertionFailed else Inr (right_link nd))"

definition Dim :: "KDTree \<Rightarrow> nat \<Rightarrow> logic_error + nat" where
  "Dim t n = (case at_vec (nodes t) n of Inl e \<Rightarrow> Inl e
     | Inr nd \<Rightarrow> if leaf nd then Inl AssertionFailed else Inr (unat (split_dim nd)))"

definition Val :: "KDTree \<Rightarrow> nat \<Rightarrow> logic_error + nat" where
  "Val t n = (case at_vec (nodes t) n of Inl e \<Rightarrow> Inl e
     | Inr nd \<Rightarrow> if leaf nd then Inl AssertionFailed else Inr (unat (split_val nd)))"

definition BB :: "KDTree \<Rightarrow> nat \<Rightarrow> logic_error + BoundingBox" where
  "BB t n = at_vec (bbs t) n"

text \<open>
  \<^verbatim>\<open>List(n)\<close> returns the pair of pointers \<^verbatim>\<open>_list.data() + index\<close> and
  \<^verbatim>\<open>_list.data() + end\<close>; the model returns the two offsets.
\<close>

definition List :: "KDTree \<Rightarrow> nat \<Rightarrow> logic_error + (nat \<times> nat)" where
  "List t n = (case at_vec (nodes t) n of Inl e \<Rightarrow> Inl e
     | Inr nd \<Rightarrow>
         if leaf nd \<and> list_end nd \<le> length (assocs t)
         then Inr (list_begin nd, list_end nd)
         else Inl AssertionFailed)"

definition Descriptors :: "KDTree \<Rightarrow> U8Descriptor list" where
  "Descriptors t = descriptors t"

definition DescriptorCount :: "KDTree \<Rightarrow> nat" where
  "DescriptorCount t = dcount t"

subsection \<open>Metric module\<close>

text \<open>
  Modelled from the spec: the header only declares \<^verbatim>\<open>L1Distance\<close>,
  \<^verbatim>\<open>L2DistanceSquared\<close> (descriptor against descriptor and descriptor against box) and
  \<^verbatim>\<open>Union\<close>; their bodies are not in the sources. The spec gives them as the sum over
  all 128 dimensions of the absolute, respectively squared, byte-wise differences; for a
  box, each component of the descriptor is first clamped into \<open>[box.min, box.max]\<close>;
  \<^verbatim>\<open>Union\<close> is the component-wise min/max merge. The largest sum, \<open>128 * 255\<^sup>2\<close>, is
  below \<open>2\<^sup>3\<^sup>2\<close>, so the \<^verbatim>\<open>unsigned\<close> result is a natural number here.
\<close>

definition absdiff :: "8 word \<Rightarrow> 8 word \<Rightarrow> nat" where
  "absdiff x y = (if x \<le> y then unat y - unat x else unat x - unat y)"

definition L1Distance :: "U8Descriptor \<Rightarrow> U8Descriptor \<Rightarrow> nat" where
  "L1Distance a b = sum_list (map (\<lambda>i. absdiff (a i) (b i)) [0..<DESCRIPTOR_SIZE])"

definition L2DistanceSquared :: "U8Descriptor \<Rightarrow> U8Descriptor \<Rightarrow> nat" where
  "L2DistanceSquared a b = sum_list (map (\<lambda>i. (absdiff (a i) (b i))\<^sup>2) [0..<DESCRIPTOR_SIZE])"

definition clamp :: "8 word \<Rightarrow> 8 word \<Rightarrow> 8 word \<Rightarrow> 8 word" where
  "clamp x lo hi = (if x < lo then lo else if hi < x then hi else x)"

definition clamp_into :: "U8Descriptor \<Rightarrow> BoundingBox \<Rightarrow> U8Descriptor" where
  "clamp_into d B = (\<lambda>i. clamp (d i) (bmin B i) (bmax B i))"

definition L1DistanceBB :: "U8Descriptor \<Rightarrow> BoundingBox \<Rightarrow> nat" where
  "L1DistanceBB d B = L1Distance d (clamp_into d B)"

definition L2DistanceSquaredBB :: "U8Descriptor \<Rightarrow> BoundingBox \<Rightarrow> nat" where
  "L2DistanceSquaredBB d B = L2DistanceSquared d (clamp_into d B)"

definition Union :: "BoundingBox \<Rightarrow> BoundingBox \<Rightarrow> BoundingBox" where
  "Union a b = \<lparr>bmin = (\<lambda>i. min (bmin a i) (bmin b i)), bmax = (\<lambda>i. max (bmax a i) (bmax b i))\<rparr>"

text \<open>Component-wise containment of a descriptor, and of a box, in a box.\<close>

definition in_box :: "BoundingBox \<Rightarrow> U8Descriptor \<Rightarrow> bool" where
  "in_box B d = list_all (\<lambda>i. bmin B i \<le> d i \<and> d i \<le> bmax B i) [0..<DESCRIPTOR_SIZE]"

definition box_contains :: "BoundingBox \<Rightarrow> BoundingBox \<Rightarrow> bool" where
  "box_contains A B =
     list_all (\<lambda>i. bmin A i \<le> bmin B i \<and> bmax B i \<le> bmax A i) [0..<DESCRIPTOR_SIZE]"

subsection \<open>Single-tree builder\<close>

text \<open>
  Modelled from the spec: \<^verbatim>\<open>KDTree::GetBoundingBox\<close>, \<^verbatim>\<open>KDTree::Partition\<close>, the
  recursive \<^verbatim>\<open>KDTree::Build(node_index, lelem, relem)\<close>, the constructor and the static
  \<^verbatim>\<open>KDTree::Build\<close> are declared in the header and their bodies are not among the
  sources. The definitions below follow section 4.2 of the spec.

  The bounding box of a range accumulates the minimum and the maximum of every component
  while scanning the descriptors the range refers to.
\<close>

definition empty_box :: BoundingBox where
  "empty_box = \<lparr>bmin = (\<lambda>i. 255), bmax = (\<lambda>i. 0)\<rparr>"

definition point_box :: "U8Descriptor \<Rightarrow> BoundingBox" where
  "point_box d = \<lparr>bmin = d, bmax = d\<rparr>"

definition GetBoundingBox :: "U8Descriptor list \<Rightarrow> DescriptorAssociation list \<Rightarrow> BoundingBox" where
  "GetBoundingBox ds seg = fold (\<lambda>a B. Union B (point_box (ds ! global_index a))) seg empty_box"

text \<open>
  Modelled from the spec: steps 3 and 4 choose a split dimension (one of the five with
  the largest spread, at random) and a split value, by a rule the spec leaves open. The
  rule is a parameter: given the index of the node being built and the descriptors of
  its range, it returns the dimension and the value.
\<close>

type_synonym split_rule = "nat \<Rightarrow> U8Descriptor list \<Rightarrow> 8 word \<times> 8 word"

text \<open>
  Modelled from the spec: step 5 reorders the range so that the entries whose value on
  the split dimension is at most the split value come first, and records the boundary.
\<close>

definition Partition ::
  "U8Descriptor list \<Rightarrow> 8 word \<Rightarrow> 8 word \<Rightarrow> DescriptorAssociation list
     \<Rightarrow> DescriptorAssociation list \<times> nat" where
  "Partition ds dim val seg =
     (let lo = filter (\<lambda>a. (ds ! global_index a) (unat dim) \<le> val) seg;
          hi = filter (\<lambda>a. \<not> (ds ! global_index a) (unat dim) \<le> val) seg
      in (lo @ hi, length lo))"

text \<open>
  Modelled from the spec: a range in which one side of the partition is empty falls back
  to an arbitrary split point, here the middle of the range, so that both parts are
  smaller than the range and the recursion terminates.
\<close>

definition split_range ::
  "U8Descriptor list \<Rightarrow> split_rule \<Rightarrow> nat \<Rightarrow> DescriptorAssociation list
     \<Rightarrow> 8 word \<times> 8 word \<times> DescriptorAssociation list \<times> nat" where
  "split_range ds pick node_index seg =
     (let (dim, val) = pick node_index (map (\<lambda>a. ds ! global_index a) seg);
          (seg', m0) = Partition ds dim val seg;
          m = (if 0 < m0 \<and> m0 < length seg then m0 else length seg div 2)
      in (dim, val, seg', m))"

subsection \<open>Termination of the builder\<close>

lemma mset_filter_partition: "mset (filter P xs @ filter (\<lambda>x. \<not> P x) xs) = mset xs"
  by (induction xs) auto

lemma Partition_mset: "mset (fst (Partition ds dim val seg)) = mset seg"
  by (simp add: Partition_def Let_def mset_filter_partition del: mset_append)

lemma split_range_props:
  assumes "split_range ds pick ni seg = (dim, val, seg1, m)"
  shows "mset seg1 = mset seg" and "2 \<le> length seg \<Longrightarrow> 0 < m \<and> m < length seg"
proof -
  obtain d v where p: "pick ni (map (\<lambda>a. ds ! global_index a) seg) = (d, v)"
    by (cases "pick ni (map (\<lambda>a. ds ! global_index a) seg)")
  obtain s m0 where q: "Partition ds d v seg = (s, m0)"
    by (cases "Partition ds d v seg")
  have "seg1 = fst (Partition ds d v seg)"
    using assms p q by (simp add: split_range_def Let_def)
  then show "mset seg1 = mset seg"
    by (simp add: Partition_mset)
  have "m = (if 0 < m0 \<and> m0 < length seg then m0 else length seg div 2)"
    using assms p q by (simp add: split_range_def Let_def)
  then show "2 \<le> length seg \<Longrightarrow> 0 < m \<and> m < length seg"
    by (auto split: if_splits)
qed

lemma split_range_decreases:
  assumes "split_range ds pick ni seg = (dim, val, seg1, m)"
    and "\<not> (length seg \<le> ls \<or> ls = 0)"
  shows "length (take m seg1) < length seg" and "length (drop m seg1) < length seg"
proof -
  have "2 \<le> length seg" using assms(2) by simp
  then have "0 < m \<and> m < length seg"
    using split_range_props(2) [OF assms(1)] by simp
  moreover have "length seg1 = length seg"
    using split_range_props(1) [OF assms(1)] by (rule mset_eq_length)
  ultimately show "length (take m seg1) < length seg" and "length (drop m seg1) < length seg"
    by auto
qed

text \<open>
  Modelled from the spec: the recursion on \<open>(node_index, l, r)\<close>, with the range given by
  its first index \<open>l\<close> and its entries \<open>seg\<close> (so \<open>r = l + length seg\<close>). It returns
  the nodes and boxes of the subtree in the order of their indices, starting at
  \<open>node_index\<close>, and the reordered range. A range of at most \<open>leaf_size\<close> entries
  becomes a leaf; otherwise the left child is built at \<open>node_index + 1\<close> and the right
  child at the next free index, which the node stores. \<open>Build\<close> rejects
  \<open>leaf_size = 0\<close> before the recursion starts; the recursion itself makes a leaf then.
\<close>

function build_rec ::
  "U8Descriptor list \<Rightarrow> split_rule \<Rightarrow> nat \<Rightarrow> nat \<Rightarrow> nat \<Rightarrow> DescriptorAssociation list
     \<Rightarrow> Node list \<times> BoundingBox list \<times> DescriptorAssociation list" where
  "build_rec ds pick leaf_size node_index l seg =
     (if length seg \<le> leaf_size \<or> leaf_size = 0
      then ([LeafNode l (l + length seg)], [GetBoundingBox ds seg], seg)
      else
        (case split_range ds pick node_index seg of
           (dim, val, seg', m) \<Rightarrow>
             (case build_rec ds pick leaf_size (node_index + 1) l (take m seg') of
                (nsL, bbL, segL) \<Rightarrow>
                  (case build_rec ds pick leaf_size (node_index + 1 + length nsL) (l + m)
                          (drop m seg') of
                     (nsR, bbR, segR) \<Rightarrow>
                       (Internal (node_index + 1 + length nsL) dim val # nsL @ nsR,
                        GetBoundingBox ds seg # bbL @ bbR,
                        segL @ segR)))))"
  by pat_completeness auto
termination
proof (relation "measure (\<lambda>(ds, pick, leaf_size, node_index, l, seg). length seg)", goal_cases)
  case 1
  show ?case by simp
next
  case (2 ds pick leaf_size node_index l seg x y xa ya xb yb)
  then have "split_range ds pick node_index seg = (x, xa, xb, yb)"
    by simp
  then show ?case
    using split_range_decreases(1) 2(1) by simp
next
  case (3 ds pick leaf_size node_index l seg x y xa ya xb yb xc yc xd yd)
  then have "split_range ds pick node_index seg = (x, xa, xb, yb)"
    by simp
  then show ?case
    using split_range_decreases(2) 3(1) by simp
qed

declare build_rec.simps [simp del]

text \<open>
  What the builder establishes for the node at index \<open>n\<close> of a subtree that occupies the
  indices below \<open>hi\<close> and the range \<open>[l, r)\<close>.
\<close>

fun node_ok :: "nat \<Rightarrow> nat \<Rightarrow> nat \<Rightarrow> nat \<Rightarrow> nat \<Rightarrow> Node \<Rightarrow> bool" where
  "node_ok ls n hi l r (Internal rt d v) = (n + 1 < hi \<and> n < rt \<and> rt < hi)"
| "node_ok ls n hi l r (LeafNode b e) = (b \<le> e \<and> e - b \<le> ls \<and> l \<le> b \<and> e \<le> r)"

text \<open>
  Modelled from the spec: the constructor fills the association list with one entry for
  each descriptor of the store, in order, its \<open>local_index\<close> counting the earlier
  descriptors of the same image; \<open>Build\<close> fails for no descriptors or a leaf size of 0 and
  otherwise builds the tree from node 0 over the whole list.
\<close>

definition initial_list :: "16 word list \<Rightarrow> nat \<Rightarrow> DescriptorAssociation list" where
  "initial_list image_indexes descriptor_count =
     map (\<lambda>i. \<lparr>global_index = i, image_index = image_indexes ! i,
               local_index = of_nat (length (filter (\<lambda>j. image_indexes ! j = image_indexes ! i)
                                               [0..<i]))\<rparr>)
       [0..<descriptor_count]"

definition Build ::
  "split_rule \<Rightarrow> U8Descriptor list \<Rightarrow> 16 word list \<Rightarrow> nat \<Rightarrow> nat \<Rightarrow> KDTree option" where
  "Build pick ds image_indexes descriptor_count leaf_size =
     (if descriptor_count = 0 \<or> leaf_size = 0 then None
      else case build_rec ds pick leaf_size 0 0 (initial_list image_indexes descriptor_count) of
             (ns, bs, seg) \<Rightarrow>
               Some \<lparr>descriptors = ds, dcount = descriptor_count, bbs = bs, nodes = ns,
                     assocs = seg\<rparr>)"

subsection \<open>Concrete instances\<close>

text \<open>Two descriptors, a tree of one leaf and a box, for concrete checks.\<close>

definition zero_descriptor :: U8Descriptor where
  "zero_descriptor = (\<lambda>i. 0)"

definition unit_descriptor :: "8 word \<Rightarrow> U8Descriptor" where
  "unit_descriptor x = (\<lambda>i. if i = 0 then x else 0)"

definition single_leaf_tree :: KDTree where
  "single_leaf_tree =
     \<lparr>descriptors = [zero_descriptor], dcount = 1,
      bbs = [\<lparr>bmin = zero_descriptor, bmax = zero_descriptor\<rparr>],
      nodes = [LeafNode 0 1],
      assocs = [\<lparr>global_index = 0, image_index = 0, local_index = 0\<rparr>]\<rparr>"

definition example_box :: BoundingBox where
  "example_box = \<lparr>bmin = zero_descriptor, bmax = unit_descriptor 10\<rparr>"

text \<open>A store of three descriptors and the tree built over it, for concrete checks.\<close>

definition example_store :: "U8Descriptor list" where
  "example_store = [unit_descriptor 1, unit_descriptor 5, unit_descriptor 9]"

definition example_pick :: split_rule where
  "example_pick = (\<lambda>node_index range. (0, 4))"

definition example_assoc :: "nat \<Rightarrow> DescriptorAssociation" where
  "example_assoc i = \<lparr>global_index = i, image_index = 0, local_index = of_nat i\<rparr>"

definition example_tree :: KDTree where
  "example_tree =
     \<lparr>descriptors = example_store, dcount = 3,
      bbs = [GetBoundingBox example_store [example_assoc 0, example_assoc 1, example_assoc 2],
             GetBoundingBox example_store [example_assoc 0],
             GetBoundingBox example_store [example_assoc 1, example_assoc 2],
             GetBoundingBox example_store [example_assoc 1],
             GetBoundingBox example_store [example_assoc 2]],
      nodes = [Internal 2 0 4, LeafNode 0 1, Internal 4 0 4, LeafNode 1 2, LeafNode 2 3],
      assocs = [example_assoc 0, example_assoc 1, example_assoc 2]\<rparr>"

section \<open>The calibration routine of \<^verbatim>\<open>aliceVision/hdr/DebevecCalibrate.cpp\<close>\<close>

text \<open>
  \<^verbatim>\<open>DebevecCalibrate::process\<close> computes with \<^verbatim>\<open>float\<close> and \<^verbatim>\<open>double\<close>. The claims
  about it concern which rows it assembles and what it returns, not the numbers, so the
  type of the numbers is a parameter \<open>'f\<close> and the operations on them are the fields of
  an environment: the weight curve's \<^verbatim>\<open>operator()\<close> and \<^verbatim>\<open>getValue\<close>, \<^verbatim>\<open>std::log\<close>,
  multiplication, negation, and the conversion
  \<^verbatim>\<open>std::round(sample * (channelQuantization - 1))\<close> to an index.
\<close>

record 'f float_env =
  weight_call :: "'f \<Rightarrow> nat \<Rightarrow> 'f"
  weight_getValue :: "nat \<Rightarrow> nat \<Rightarrow> 'f"
  flog :: "'f \<Rightarrow> 'f"
  fmul :: "'f \<Rightarrow> 'f \<Rightarrow> 'f"
  fneg :: "'f \<Rightarrow> 'f"
  round_index :: "'f \<Rightarrow> nat \<Rightarrow> nat"
  fzero :: 'f
  fone :: 'f
  ftwo :: 'f

text \<open>
  \<^verbatim>\<open>ImageSamples\<close> is declared in \<^verbatim>\<open>sampling.hpp\<close>, which is not among the sources;
  \<^verbatim>\<open>process\<close> reads its members \<^verbatim>\<open>colors\<close> (a vector of colours, each indexed by the
  channel) and \<^verbatim>\<open>exposure\<close>.
\<close>

record 'f ImageSamples =
  colors :: "(nat \<Rightarrow> 'f) list"
  exposure :: 'f

text \<open>\<^verbatim>\<open>Eigen::Triplet<double>(row, col, value)\<close>.\<close>

record 'f Triplet =
  trow :: nat
  tcol :: nat
  tvalue :: 'f

text \<open>
  The intermediate data of \<^verbatim>\<open>process\<close>: \<^verbatim>\<open>tripletList_array\<close> and \<^verbatim>\<open>b_array\<close>, both
  indexed by the channel, and the row counter \<^verbatim>\<open>count\<close>. Each \<^verbatim>\<open>b_array[channel]\<close>
  starts as \<^verbatim>\<open>Vec::Zero(countMeasures + channelQuantization + 1)\<close>; the model keeps the
  entry of every row and leaves the length of the vector to the solver.
\<close>

record 'f assembly =
  tripletList_array :: "nat \<Rightarrow> 'f Triplet list"
  b_array :: "nat \<Rightarrow> nat \<Rightarrow> 'f"
  count :: nat

datatype calib_error = GroupIndexOutOfBounds | AllocationFailure

definition channelsCount :: nat where
  "channelsCount = 3"

text \<open>\<^verbatim>\<open>size_t\<close> subtraction: 64 bits, wrapping.\<close>

definition size_t_sub :: "nat \<Rightarrow> nat \<Rightarrow> nat" where
  "size_t_sub a b = unat ((of_nat a :: 64 word) - of_nat b)"

text \<open>Lines 49 to 60: the points of a group are the colours of its first bracket.\<close>

definition countPointOfGroup :: "'f ImageSamples list \<Rightarrow> nat" where
  "countPointOfGroup grp = (if length grp > 0 then length (colors (grp ! 0)) else 0)"

definition countPointPerGroup :: "'f ImageSamples list list \<Rightarrow> nat list" where
  "countPointPerGroup samples = map countPointOfGroup samples"

definition countPoints :: "'f ImageSamples list list \<Rightarrow> nat" where
  "countPoints samples = sum_list (countPointPerGroup samples)"

definition countMeasures :: "'f ImageSamples list list \<Rightarrow> nat" where
  "countMeasures samples = sum_list (map (\<lambda>grp. countPointOfGroup grp * length grp) samples)"

text \<open>Lines 89 to 99: the body of the channel loop, for one sample of one bracket.\<close>

definition sample_channel ::
  "'f float_env \<Rightarrow> nat \<Rightarrow> nat \<Rightarrow> 'f ImageSamples \<Rightarrow> nat \<Rightarrow> nat \<Rightarrow> 'f assembly \<Rightarrow> 'f assembly" where
  "sample_channel E channelQuantization previousSamplesCount bracket_cur sampleId channel st =
     (let sample = (colors bracket_cur ! sampleId) channel;
          w_ij = weight_call E sample channel;
          time = flog E (exposure bracket_cur);
          index = round_index E sample channelQuantization
      in st\<lparr>tripletList_array := (tripletList_array st)
               (channel := tripletList_array st channel @
                  [\<lparr>trow = count st, tcol = index, tvalue = w_ij\<rparr>,
                   \<lparr>trow = count st,
                    tcol = channelQuantization + previousSamplesCount + sampleId,
                    tvalue = fneg E w_ij\<rparr>]),
             b_array := (b_array st)
               (channel := (b_array st channel)(count st := fmul E w_ij time))\<rparr>)"

text \<open>Lines 87 to 102: one sample adds one row, in all three channels.\<close>

definition sample_step ::
  "'f float_env \<Rightarrow> nat \<Rightarrow> nat \<Rightarrow> 'f ImageSamples \<Rightarrow> nat \<Rightarrow> 'f assembly \<Rightarrow> 'f assembly" where
  "sample_step E channelQuantization previousSamplesCount bracket_cur sampleId st =
     (let st' = fold (sample_channel E channelQuantization previousSamplesCount bracket_cur sampleId)
                  [0..<channelsCount] st
      in st'\<lparr>count := count st' + 1\<rparr>)"

definition bracket_rows ::
  "'f float_env \<Rightarrow> nat \<Rightarrow> nat \<Rightarrow> 'f ImageSamples \<Rightarrow> 'f assembly \<Rightarrow> 'f assembly" where
  "bracket_rows E channelQuantization previousSamplesCount bracket_cur st =
     fold (sample_step E channelQuantization previousSamplesCount bracket_cur)
       [0..<length (colors bracket_cur)] st"

text \<open>
  Line 83: \<^verbatim>\<open>for (size_t bracketId = 0; bracketId < group.size() - 1; bracketId++)\<close>.
  The bound is passed in as computed; \<^verbatim>\<open>group[bracketId]\<close> beyond the vector is
  undefined behaviour in C++, an error here.
\<close>

function bracket_loop ::
  "'f float_env \<Rightarrow> nat \<Rightarrow> nat \<Rightarrow> 'f ImageSamples list \<Rightarrow> nat \<Rightarrow> nat \<Rightarrow> 'f assembly
     \<Rightarrow> calib_error + 'f assembly" where
  "bracket_loop E channelQuantization previousSamplesCount grp bound bracketId st =
     (if bracketId < bound then
        (if bracketId < length grp then
           bracket_loop E channelQuantization previousSamplesCount grp bound (bracketId + 1)
             (bracket_rows E channelQuantization previousSamplesCount (grp ! bracketId) st)
         else Inl GroupIndexOutOfBounds)
      else Inr st)"
  by pat_completeness auto
termination
  by (relation "measure (\<lambda>(E, cq, prev, grp, bound, bracketId, st). bound - bracketId)") auto

declare bracket_loop.simps [simp del]

text \<open>Lines 79 to 106: the loop over the groups, with \<^verbatim>\<open>previousSamplesCount\<close>.\<close>

fun group_loop ::
  "'f float_env \<Rightarrow> nat \<Rightarrow> 'f ImageSamples list list \<Rightarrow> nat \<Rightarrow> 'f assembly
     \<Rightarrow> calib_error + 'f assembly" where
  "group_loop E channelQuantization [] previousSamplesCount st = Inr st"
| "group_loop E channelQuantization (grp # rest) previousSamplesCount st =
     (case bracket_loop E channelQuantization previousSamplesCount grp
             (size_t_sub (length grp) 1) 0 st of
        Inl e \<Rightarrow> Inl e
      | Inr st' \<Rightarrow>
          group_loop E channelQuantization rest
            (previousSamplesCount + countPointOfGroup grp) st')"

text \<open>Lines 112 to 116: the row that fixes the scale, \<open>f(0.5) = 0\<close>.\<close>

definition fix_scale :: "'f float_env \<Rightarrow> nat \<Rightarrow> 'f assembly \<Rightarrow> 'f assembly" where
  "fix_scale E channelQuantization st =
     (let st' = fold (\<lambda>channel s. s\<lparr>tripletList_array := (tripletList_array s)
                   (channel := tripletList_array s channel @
                      [\<lparr>trow = count s, tcol = channelQuantization div 2, tvalue = fone E\<rparr>])\<rparr>)
                  [0..<channelsCount] st
      in st'\<lparr>count := count st' + 1\<rparr>)"

text \<open>Lines 120 to 136: one row for each second derivative of the curve.\<close>

definition smooth_channel :: "'f float_env \<Rightarrow> 'f \<Rightarrow> nat \<Rightarrow> nat \<Rightarrow> 'f assembly \<Rightarrow> 'f assembly" where
  "smooth_channel E lambda k channel s =
     (let w = weight_getValue E (k + 1) channel
      in s\<lparr>tripletList_array := (tripletList_array s)
            (channel := tripletList_array s channel @
               [\<lparr>trow = count s, tcol = k, tvalue = fmul E lambda w\<rparr>,
                \<lparr>trow = count s, tcol = k + 1, tvalue = fmul E (fmul E (fneg E (ftwo E)) lambda) w\<rparr>,
                \<lparr>trow = count s, tcol = k + 2, tvalue = fmul E lambda w\<rparr>])\<rparr>)"

definition smooth_step :: "'f float_env \<Rightarrow> 'f \<Rightarrow> nat \<Rightarrow> 'f assembly \<Rightarrow> 'f assembly" where
  "smooth_step E lambda k st =
     (let st' = fold (smooth_channel E lambda k) [0..<channelsCount] st
      in st'\<lparr>count := count st' + 1\<rparr>)"

definition smoothness_rows :: "'f float_env \<Rightarrow> 'f \<Rightarrow> nat \<Rightarrow> 'f assembly \<Rightarrow> 'f assembly" where
  "smoothness_rows E lambda channelQuantization st =
     fold (smooth_step E lambda) [0..<size_t_sub channelQuantization 2] st"

text \<open>
  Line 120: \<^verbatim>\<open>for (std::size_t k = 0; k < channelQuantization - 2; k++)\<close>. For
  \<^verbatim>\<open>channelQuantization\<close> below 2 the subtraction wraps to \<open>2\<^sup>6\<^sup>4 - 2\<close> or
  \<open>2\<^sup>6\<^sup>4 - 1\<close>. Every iteration appends three triplets to the vector of each channel,
  and no vector holds that many: the allocation fails, an exception leaves \<^verbatim>\<open>process\<close>,
  and the loop never completes. The model gives the error then, and the rows of the loop
  otherwise.
\<close>

definition smoothness ::
  "'f float_env \<Rightarrow> 'f \<Rightarrow> nat \<Rightarrow> 'f assembly \<Rightarrow> calib_error + 'f assembly" where
  "smoothness E lambda channelQuantization st =
     (if channelQuantization < 2 then Inl AllocationFailure
      else Inr (smoothness_rows E lambda channelQuantization st))"

definition initial_assembly :: "'f float_env \<Rightarrow> 'f assembly" where
  "initial_assembly E =
     \<lparr>tripletList_array = (\<lambda>channel. []), b_array = (\<lambda>channel row. fzero E), count = 0\<rparr>"

definition assemble ::
  "'f float_env \<Rightarrow> nat \<Rightarrow> 'f \<Rightarrow> 'f ImageSamples list list \<Rightarrow> calib_error + 'f assembly" where
  "assemble E channelQuantization lambda samples =
     (case group_loop E channelQuantization samples 0 (initial_assembly E) of
        Inl e \<Rightarrow> Inl e
      | Inr st \<Rightarrow> smoothness E lambda channelQuantization (fix_scale E channelQuantization st))"

text \<open>
  The sparse system of one channel, as lines 141 to 144 hand it to the solver: a
  \<open>count\<close> by \<open>channelQuantization + countPoints\<close> matrix from the channel's triplets,
  and the channel's right-hand side.
\<close>

record 'f linear_system =
  sys_rows :: nat
  sys_cols :: nat
  sys_triplets :: "'f Triplet list"
  sys_b :: "nat \<Rightarrow> 'f"

definition channel_system ::
  "nat \<Rightarrow> 'f ImageSamples list list \<Rightarrow> 'f assembly \<Rightarrow> nat \<Rightarrow> 'f linear_system" where
  "channel_system channelQuantization samples st channel =
     \<lparr>sys_rows = count st, sys_cols = channelQuantization + countPoints samples,
      sys_triplets = tripletList_array st channel, sys_b = b_array st channel\<rparr>"

text \<open>
  \<^verbatim>\<open>Eigen::SparseQR\<close> is a library outside the repository: what \<^verbatim>\<open>info()\<close> reports
  after \<^verbatim>\<open>compute(A)\<close> and after \<^verbatim>\<open>solve(b)\<close> (\<open>True\<close> for \<^verbatim>\<open>Eigen::Success\<close>), and the
  solution \<^verbatim>\<open>x\<close>, are parameters.
\<close>

record 'f SparseQR =
  info_after_compute :: "'f linear_system \<Rightarrow> bool"
  info_after_solve :: "'f linear_system \<Rightarrow> bool"
  solve :: "'f linear_system \<Rightarrow> nat \<Rightarrow> 'f"

text \<open>
  \<^verbatim>\<open>rgbCurve\<close> is declared in \<^verbatim>\<open>rgbCurve.hpp\<close>, which is not among the sources: a curve
  of \<open>size\<close> values for each channel, \<^verbatim>\<open>setValue(index, channel, value)\<close> storing one
  value. What the constructor \<^verbatim>\<open>rgbCurve(size)\<close> puts into a new curve is the parameter
  \<open>fresh\<close> of \<open>process\<close>.
\<close>

record 'f rgbCurve =
  curve_size :: nat
  curve_data :: "nat \<Rightarrow> nat \<Rightarrow> 'f"

definition setValue :: "nat \<Rightarrow> nat \<Rightarrow> 'f \<Rightarrow> 'f rgbCurve \<Rightarrow> 'f rgbCurve" where
  "setValue index channel v r =
     r\<lparr>curve_data := (curve_data r)(channel := (curve_data r channel)(index := v))\<rparr>"

text \<open>Lines 166 to 169: copy the solution of a channel into the response.\<close>

definition copy_result :: "nat \<Rightarrow> nat \<Rightarrow> (nat \<Rightarrow> 'f) \<Rightarrow> 'f rgbCurve \<Rightarrow> 'f rgbCurve" where
  "copy_result channelQuantization channel x response =
     fold (\<lambda>k r. setValue k channel (x k) r) [0..<channelQuantization] response"

text \<open>Lines 139 to 172: the loop over the channels, with its two early returns.\<close>

fun solve_channels ::
  "'f SparseQR \<Rightarrow> (nat \<Rightarrow> 'f linear_system) \<Rightarrow> nat \<Rightarrow> nat list \<Rightarrow> 'f rgbCurve
     \<Rightarrow> bool \<times> 'f rgbCurve" where
  "solve_channels solver sys channelQuantization [] response = (True, response)"
| "solve_channels solver sys channelQuantization (channel # rest) response =
     (if \<not> info_after_compute solver (sys channel) then (False, response)
      else let x = solve solver (sys channel)
           in if \<not> info_after_solve solver (sys channel) then (False, response)
              else solve_channels solver sys channelQuantization rest
                     (copy_result channelQuantization channel x response))"

text \<open>
  \<^verbatim>\<open>DebevecCalibrate::process\<close>. The arguments \<^verbatim>\<open>imagePathsGroups\<close>, \<^verbatim>\<open>times\<close>,
  \<^verbatim>\<open>nbPoints\<close>, \<^verbatim>\<open>calibrationDownscale\<close> and \<^verbatim>\<open>fisheye\<close> only reach
  \<^verbatim>\<open>extractSamples\<close>, which is outside the file; the model starts from the samples it
  returns. The weight curve is in the environment \<open>E\<close>. The result is what \<^verbatim>\<open>process\<close>
  returns together with the \<^verbatim>\<open>response\<close> it leaves to the caller. The argument
  \<open>response\<close> is the caller's curve on entry; line 63 overwrites it.
\<close>

definition process ::
  "'f float_env \<Rightarrow> (nat \<Rightarrow> 'f rgbCurve) \<Rightarrow> 'f SparseQR \<Rightarrow> 'f ImageSamples list list \<Rightarrow> nat \<Rightarrow> 'f
     \<Rightarrow> 'f rgbCurve \<Rightarrow> calib_error + (bool \<times> 'f rgbCurve)" where
  "process E fresh solver samples channelQuantization lambda response =
     (let response = fresh channelQuantization
      in case assemble E channelQuantization lambda samples of
           Inl e \<Rightarrow> Inl e
         | Inr st \<Rightarrow>
             Inr (solve_channels solver (channel_system channelQuantization samples st)
                    channelQuantization [0..<channelsCount] response))"

text \<open>
  The rows the measurement loop is meant to add: those of every bracket of a group but
  the last one.
\<close>

fun group_rows ::
  "'f float_env \<Rightarrow> nat \<Rightarrow> 'f ImageSamples list list \<Rightarrow> nat \<Rightarrow> 'f assembly \<Rightarrow> 'f assembly" where
  "group_rows E channelQuantization [] previousSamplesCount st = st"
| "group_rows E channelQuantization (grp # rest) previousSamplesCount st =
     group_rows E channelQuantization rest (previousSamplesCount + countPointOfGroup grp)
       (fold (bracket_rows E channelQuantization previousSamplesCount) (butlast grp) st)"

definition solver_success :: "'f SparseQR \<Rightarrow> 'f linear_system \<Rightarrow> bool" where
  "solver_success solver s \<longleftrightarrow> info_after_compute solver s \<and> info_after_solve solver s"

text \<open>A small instance over the integers, for concrete checks.\<close>

definition example_env :: "int float_env" where
  "example_env =
     \<lparr>weight_call = (\<lambda>sample channel. sample), weight_getValue = (\<lambda>index channel. 1),
      flog = (\<lambda>x. x), fmul = (\<lambda>x y. x * y), fneg = (\<lambda>x. - x),
      round_index = (\<lambda>sample cq. nat sample), fzero = 0, fone = 1, ftwo = 2\<rparr>"

definition example_bracket :: "int \<Rightarrow> int ImageSamples" where
  "example_bracket e = \<lparr>colors = [\<lambda>channel. int channel], exposure = e\<rparr>"

definition example_samples :: "int ImageSamples list list" where
  "example_samples = [[example_bracket 1, example_bracket 2]]"

definition example_fresh :: "nat \<Rightarrow> int rgbCurve" where
  "example_fresh n = \<lparr>curve_size = n, curve_data = (\<lambda>channel k. 0)\<rparr>"


definition failing_solver :: "int SparseQR" where
  "failing_solver =
     \<lparr>info_after_compute = (\<lambda>s. True),
      info_after_solve = (\<lambda>s. tvalue (hd (sys_triplets s)) \<noteq> 1),
      solve = (\<lambda>s k. 5)\<rparr>"

definition example_previous :: "int rgbCurve" where
  "example_previous = \<lparr>curve_size = 2, curve_data = (\<lambda>channel k. 7)\<rparr>"

definition example_state :: "int assembly" where
  "example_state =
     smoothness_rows example_env 1 2 (fix_scale example_env 2
       (group_rows example_env 2 example_samples 0 (initial_assembly example_env)))"

section \<open>Facts about the metric\<close>

lemma in_box_iff:
  "in_box B d \<longleftrightarrow> (\<forall>i<DESCRIPTOR_SIZE. bmin B i \<le> d i \<and> d i \<le> bmax B i)"
  by (auto simp: in_box_def list_all_iff)

lemma box_contains_iff:
  "box_contains A B \<longleftrightarrow> (\<forall>i<DESCRIPTOR_SIZE. bmin A i \<le> bmin B i \<and> bmax B i \<le> bmax A i)"
  by (auto simp: box_contains_def list_all_iff)

lemma absdiff_self: "absdiff x x = 0"
  by (simp add: absdiff_def)

lemma clamp_inside: "lo \<le> x \<Longrightarrow> x \<le> hi \<Longrightarrow> clamp x lo hi = x"
  by (auto simp: clamp_def)

lemma absdiff_clamp_le:
  assumes "lo \<le> p" and "p \<le> hi"
  shows "absdiff x (clamp x lo hi) \<le> absdiff x p"
  using assms
  by (auto simp: absdiff_def clamp_def word_le_nat_alt word_less_nat_alt)

lemma sum_list_map_mono:
  fixes f g :: "nat \<Rightarrow> nat"
  assumes "\<And>i. i \<in> set xs \<Longrightarrow> f i \<le> g i"
  shows "sum_list (map f xs) \<le> sum_list (map g xs)"
  using assms by (induction xs) (auto intro: add_mono)

lemma sum_list_map_zero:
  fixes f :: "nat \<Rightarrow> nat"
  assumes "\<And>i. i \<in> set xs \<Longrightarrow> f i = 0"
  shows "sum_list (map f xs) = 0"
  using assms by (induction xs) auto

section \<open>Contract violations of the accessors\<close>

text \<open>
  Claim C2. \<^verbatim>\<open>Left\<close>, \<^verbatim>\<open>Right\<close>, \<^verbatim>\<open>Dim\<close> and \<^verbatim>\<open>Val\<close> called on a node that is a leaf
  fail their assertion, which throws a logic error, and every node accessor called with
  an index beyond the vector it reads fails the range check of \<^verbatim>\<open>at\<close>, which throws
  the range error, a logic error as well. In both cases the call raises the exception at
  once and returns no value.
\<close>

theorem accessor_contract_violation:
  "(n < length (nodes t) \<and> leaf (nodes t ! n) \<longrightarrow>
      Left t n = Inl AssertionFailed \<and> Right t n = Inl AssertionFailed \<and>
      Dim t n = Inl AssertionFailed \<and> Val t n = Inl AssertionFailed) \<and>
   (length (nodes t) \<le> n \<longrightarrow>
      IsLeaf t n = Inl OutOfRange \<and> Left t n = Inl OutOfRange \<and>
      Right t n = Inl OutOfRange \<and> Dim t n = Inl OutOfRange \<and>
      Val t n = Inl OutOfRange \<and> List t n = Inl OutOfRange) \<and>
   (length (bbs t) \<le> n \<longrightarrow> BB t n = Inl OutOfRange)"
  by (simp add: Left_def Right_def Dim_def Val_def IsLeaf_def List_def BB_def at_vec_def)

theorem accessor_contract_violation_witness:
  "(0 < length (nodes single_leaf_tree) \<and> leaf (nodes single_leaf_tree ! 0)) \<and>
   Left single_leaf_tree 0 = Inl AssertionFailed \<and>
   Right single_leaf_tree 0 = Inl AssertionFailed \<and>
   Dim single_leaf_tree 0 = Inl AssertionFailed \<and>
   Val single_leaf_tree 0 = Inl AssertionFailed \<and>
   length (nodes single_leaf_tree) \<le> 1 \<and> length (bbs single_leaf_tree) \<le> 1 \<and>
   IsLeaf single_leaf_tree 1 = Inl OutOfRange \<and> Left single_leaf_tree 1 = Inl OutOfRange \<and>
   Right single_leaf_tree 1 = Inl OutOfRange \<and> Dim single_leaf_tree 1 = Inl OutOfRange \<and>
   Val single_leaf_tree 1 = Inl OutOfRange \<and> List single_leaf_tree 1 = Inl OutOfRange \<and>
   BB single_leaf_tree 1 = Inl OutOfRange"
proof -
  have a: "0 < length (nodes single_leaf_tree) \<and> leaf (nodes single_leaf_tree ! 0)"
    by (simp add: single_leaf_tree_def)
  have b: "length (nodes single_leaf_tree) \<le> 1" "length (bbs single_leaf_tree) \<le> 1"
    by (simp_all add: single_leaf_tree_def)
  show ?thesis
    using a b accessor_contract_violation [of 0 single_leaf_tree]
      accessor_contract_violation [of 1 single_leaf_tree]
    by simp
qed

section \<open>The box distance is a lower bound\<close>

lemma clamp_in_range: "lo \<le> hi \<Longrightarrow> lo \<le> clamp x lo hi \<and> clamp x lo hi \<le> hi"
  by (auto simp: clamp_def)

lemma absdiff_eq_0_iff: "absdiff x y = 0 \<longleftrightarrow> x = y"
  by (auto simp: absdiff_def word_le_nat_alt word_unat_eq_iff)

lemma sum_list_map_eq_0D:
  fixes f :: "nat \<Rightarrow> nat"
  assumes "sum_list (map f xs) = 0" and "i \<in> set xs"
  shows "f i = 0"
  using assms by (induction xs) auto

lemma sum_list_unit:
  fixes f :: "nat \<Rightarrow> nat"
  assumes "\<And>i. 0 < i \<Longrightarrow> f i = 0"
  shows "sum_list (map f [0..<DESCRIPTOR_SIZE]) = f 0"
proof -
  have "[0..<DESCRIPTOR_SIZE] = 0 # [1..<DESCRIPTOR_SIZE]"
    by (simp add: DESCRIPTOR_SIZE_def upt_conv_Cons)
  moreover have "sum_list (map f [1..<DESCRIPTOR_SIZE]) = 0"
    by (rule sum_list_map_zero) (simp add: assms)
  ultimately show ?thesis by simp
qed

lemma unit_descriptor_apply: "unit_descriptor x i = (if i = 0 then x else 0)"
  by (simp add: unit_descriptor_def)

lemma example_clamp:
  "clamp_into (unit_descriptor 20) example_box i = (if i = 0 then 10 else 0)"
  by (simp add: clamp_into_def clamp_def example_box_def unit_descriptor_def zero_descriptor_def)

lemma example_box_distance:
  "L1DistanceBB (unit_descriptor 20) example_box = 10"
  "L2DistanceSquaredBB (unit_descriptor 20) example_box = 100"
  "L1Distance (unit_descriptor 20) (unit_descriptor 5) = 15"
  "L2DistanceSquared (unit_descriptor 20) (unit_descriptor 5) = 225"
proof -
  show "L1DistanceBB (unit_descriptor 20) example_box = 10"
    unfolding L1DistanceBB_def L1Distance_def
    by (subst sum_list_unit) (simp_all add: example_clamp absdiff_def unit_descriptor_apply)
  show "L2DistanceSquaredBB (unit_descriptor 20) example_box = 100"
    unfolding L2DistanceSquaredBB_def L2DistanceSquared_def
    by (subst sum_list_unit) (simp_all add: example_clamp absdiff_def unit_descriptor_apply)
  show "L1Distance (unit_descriptor 20) (unit_descriptor 5) = 15"
    unfolding L1Distance_def
    by (subst sum_list_unit) (simp_all add: absdiff_def unit_descriptor_apply)
  show "L2DistanceSquared (unit_descriptor 20) (unit_descriptor 5) = 225"
    unfolding L2DistanceSquared_def
    by (subst sum_list_unit) (simp_all add: absdiff_def unit_descriptor_apply)
qed

text \<open>
  Claim C6. The descriptor-to-box distances clamp each component of the descriptor into
  \<open>[B.min, B.max]\<close> before differencing: they are the distances from the descriptor to
  its clamped copy, which lies in every non-empty box and is the descriptor itself when
  the descriptor lies in the box. So they are 0 for a descriptor that lies component-wise
  inside the box (and, in a non-empty box, only for such a descriptor), and they are at
  most the corresponding distance from the descriptor to any descriptor contained in the
  box.
\<close>

theorem box_distance_lower_bound:
  "L1DistanceBB d B = L1Distance d (\<lambda>i. clamp (d i) (bmin B i) (bmax B i)) \<and>
   L2DistanceSquaredBB d B = L2DistanceSquared d (\<lambda>i. clamp (d i) (bmin B i) (bmax B i)) \<and>
   (in_box B d \<longrightarrow>
      (\<forall>i<DESCRIPTOR_SIZE. clamp (d i) (bmin B i) (bmax B i) = d i) \<and>
      L1DistanceBB d B = 0 \<and> L2DistanceSquaredBB d B = 0) \<and>
   (in_box B p \<longrightarrow>
      in_box B (\<lambda>i. clamp (d i) (bmin B i) (bmax B i)) \<and>
      L1DistanceBB d B \<le> L1Distance d p \<and> L2DistanceSquaredBB d B \<le> L2DistanceSquared d p \<and>
      (L1DistanceBB d B = 0 \<longrightarrow> in_box B d) \<and> (L2DistanceSquaredBB d B = 0 \<longrightarrow> in_box B d))"
proof -
  have same: "clamp (d i) (bmin B i) (bmax B i) = d i" if "in_box B d" "i < DESCRIPTOR_SIZE" for i
    using that by (simp add: in_box_iff clamp_inside)
  have zero: "L1DistanceBB d B = 0 \<and> L2DistanceSquaredBB d B = 0" if "in_box B d"
  proof -
    have "absdiff (d i) (clamp_into d B i) = 0" if "i < DESCRIPTOR_SIZE" for i
      using same [OF \<open>in_box B d\<close> that] by (simp add: clamp_into_def absdiff_self)
    then show ?thesis
      by (simp add: L1DistanceBB_def L2DistanceSquaredBB_def L1Distance_def
          L2DistanceSquared_def sum_list_map_zero)
  qed
  have inside: "in_box B (clamp_into d B)" if "in_box B p"
  proof -
    have "bmin B i \<le> bmax B i" if "i < DESCRIPTOR_SIZE" for i
      using \<open>in_box B p\<close> that by (auto simp: in_box_iff intro: order_trans)
    then show ?thesis
      by (simp add: in_box_iff clamp_into_def clamp_in_range)
  qed
  have bound: "L1DistanceBB d B \<le> L1Distance d p \<and>
      L2DistanceSquaredBB d B \<le> L2DistanceSquared d p" if "in_box B p"
  proof -
    have le: "absdiff (d i) (clamp_into d B i) \<le> absdiff (d i) (p i)"
      if "i < DESCRIPTOR_SIZE" for i
      using \<open>in_box B p\<close> that by (simp add: in_box_iff clamp_into_def absdiff_clamp_le)
    have "L1DistanceBB d B \<le> L1Distance d p"
      unfolding L1DistanceBB_def L1Distance_def
      by (rule sum_list_map_mono) (simp add: le)
    moreover have "L2DistanceSquaredBB d B \<le> L2DistanceSquared d p"
      unfolding L2DistanceSquaredBB_def L2DistanceSquared_def
      by (rule sum_list_map_mono) (simp add: le power_mono)
    ultimately show ?thesis by simp
  qed
  have only1: "in_box B d" if "in_box B p" "L1DistanceBB d B = 0"
  proof -
    have "d i = clamp_into d B i" if "i < DESCRIPTOR_SIZE" for i
      using sum_list_map_eq_0D [of "\<lambda>i. absdiff (d i) (clamp_into d B i)"
          "[0..<DESCRIPTOR_SIZE]" i] \<open>L1DistanceBB d B = 0\<close> that
      by (simp add: L1DistanceBB_def L1Distance_def absdiff_eq_0_iff)
    then show ?thesis
      using inside [OF \<open>in_box B p\<close>] by (simp add: in_box_iff)
  qed
  have only2: "in_box B d" if "in_box B p" "L2DistanceSquaredBB d B = 0"
  proof -
    have "d i = clamp_into d B i" if "i < DESCRIPTOR_SIZE" for i
      using sum_list_map_eq_0D [of "\<lambda>i. (absdiff (d i) (clamp_into d B i))\<^sup>2"
          "[0..<DESCRIPTOR_SIZE]" i] \<open>L2DistanceSquaredBB d B = 0\<close> that
      by (simp add: L2DistanceSquaredBB_def L2DistanceSquared_def absdiff_eq_0_iff)
    then show ?thesis
      using inside [OF \<open>in_box B p\<close>] by (simp add: in_box_iff)
  qed
  have ci: "(\<lambda>i. clamp (d i) (bmin B i) (bmax B i)) = clamp_into d B"
    by (simp add: clamp_into_def)
  have d1: "L1DistanceBB d B = L1Distance d (clamp_into d B)"
    by (simp add: L1DistanceBB_def)
  have d2: "L2DistanceSquaredBB d B = L2DistanceSquared d (clamp_into d B)"
    by (simp add: L2DistanceSquaredBB_def)
  show ?thesis
    unfolding ci using d1 d2 same zero inside bound only1 only2 by blast
qed

theorem box_distance_lower_bound_witness:
  "in_box example_box (unit_descriptor 3) \<and> in_box example_box (unit_descriptor 5) \<and>
   \<not> in_box example_box (unit_descriptor 20) \<and>
   clamp (unit_descriptor 3 0) (bmin example_box 0) (bmax example_box 0) = 3 \<and>
   clamp (unit_descriptor 20 0) (bmin example_box 0) (bmax example_box 0) = 10 \<and>
   L1DistanceBB (unit_descriptor 3) example_box = 0 \<and>
   L2DistanceSquaredBB (unit_descriptor 3) example_box = 0 \<and>
   L1DistanceBB (unit_descriptor 20) example_box = 10 \<and>
   L2DistanceSquaredBB (unit_descriptor 20) example_box = 100 \<and>
   L1Distance (unit_descriptor 20) (unit_descriptor 5) = 15 \<and>
   L2DistanceSquared (unit_descriptor 20) (unit_descriptor 5) = 225 \<and>
   L1DistanceBB (unit_descriptor 20) example_box
     \<le> L1Distance (unit_descriptor 20) (unit_descriptor 5) \<and>
   L2DistanceSquaredBB (unit_descriptor 20) example_box
     \<le> L2DistanceSquared (unit_descriptor 20) (unit_descriptor 5)"
proof -
  have a: "in_box example_box (unit_descriptor 3)"
    by (simp add: in_box_iff example_box_def unit_descriptor_def zero_descriptor_def)
  have b: "in_box example_box (unit_descriptor 5)"
    by (simp add: in_box_iff example_box_def unit_descriptor_def zero_descriptor_def)
  have c: "\<not> in_box example_box (unit_descriptor 20)"
    by (auto simp: in_box_iff example_box_def unit_descriptor_def zero_descriptor_def
        DESCRIPTOR_SIZE_def intro!: exI [of _ 0])
  have d: "clamp (unit_descriptor 3 0) (bmin example_box 0) (bmax example_box 0) = 3"
    "clamp (unit_descriptor 20 0) (bmin example_box 0) (bmax example_box 0) = 10"
    by (simp_all add: clamp_def example_box_def unit_descriptor_def zero_descriptor_def)
  show ?thesis
    using a b c d example_box_distance
      box_distance_lower_bound [of "unit_descriptor 3" example_box "unit_descriptor 5"]
      box_distance_lower_bound [of "unit_descriptor 20" example_box "unit_descriptor 5"]
    by blast
qed

section \<open>Invariants of the builder\<close>

lemma build_rec_leaf:
  "length seg \<le> ls \<Longrightarrow>
   build_rec ds pick ls ni l seg = ([LeafNode l (l + length seg)], [GetBoundingBox ds seg], seg)"
  by (subst build_rec.simps) simp

lemma build_rec_internal:
  assumes "\<not> length seg \<le> ls" and "0 < ls"
    and "split_range ds pick ni seg = (dim, val, seg1, m)"
    and "build_rec ds pick ls (ni + 1) l (take m seg1) = (nsL, bbL, segL)"
    and "build_rec ds pick ls (ni + 1 + length nsL) (l + m) (drop m seg1) = (nsR, bbR, segR)"
  shows "build_rec ds pick ls ni l seg =
         (Internal (ni + 1 + length nsL) dim val # nsL @ nsR,
          GetBoundingBox ds seg # bbL @ bbR, segL @ segR)"
  using assms by (subst build_rec.simps) simp

lemma build_rec_induct:
  assumes ls: "0 < ls"
    and leafc: "\<And>ni l seg. length seg \<le> ls \<Longrightarrow>
        P ni l seg ([LeafNode l (l + length seg)], [GetBoundingBox ds seg], seg)"
    and nodec: "\<And>ni l seg dim val seg1 m nsL bbL segL nsR bbR segR.
        \<not> length seg \<le> ls \<Longrightarrow> mset seg1 = mset seg \<Longrightarrow> 0 < m \<Longrightarrow> m < length seg \<Longrightarrow>
        build_rec ds pick ls (ni + 1) l (take m seg1) = (nsL, bbL, segL) \<Longrightarrow>
        build_rec ds pick ls (ni + 1 + length nsL) (l + m) (drop m seg1) = (nsR, bbR, segR) \<Longrightarrow>
        P (ni + 1) l (take m seg1) (nsL, bbL, segL) \<Longrightarrow>
        P (ni + 1 + length nsL) (l + m) (drop m seg1) (nsR, bbR, segR) \<Longrightarrow>
        P ni l seg (Internal (ni + 1 + length nsL) dim val # nsL @ nsR,
                    GetBoundingBox ds seg # bbL @ bbR, segL @ segR)"
  shows "P ni l seg (build_rec ds pick ls ni l seg)"
proof (induction "length seg" arbitrary: ni l seg rule: less_induct)
  case less
  show ?case
  proof (cases "length seg \<le> ls")
    case True
    then show ?thesis
      using leafc by (simp add: build_rec_leaf)
  next
    case False
    obtain dim val seg1 m where sp: "split_range ds pick ni seg = (dim, val, seg1, m)"
      by (cases "split_range ds pick ni seg") auto
    have big: "2 \<le> length seg" using False ls by simp
    have m: "0 < m" "m < length seg"
      using split_range_props(2) [OF sp] big by simp_all
    have ms: "mset seg1 = mset seg"
      using split_range_props(1) [OF sp] .
    then have len1: "length seg1 = length seg"
      by (rule mset_eq_length)
    obtain nsL bbL segL where L:
      "build_rec ds pick ls (ni + 1) l (take m seg1) = (nsL, bbL, segL)"
      by (cases "build_rec ds pick ls (ni + 1) l (take m seg1)") auto
    obtain nsR bbR segR where R:
      "build_rec ds pick ls (ni + 1 + length nsL) (l + m) (drop m seg1) = (nsR, bbR, segR)"
      by (cases "build_rec ds pick ls (ni + 1 + length nsL) (l + m) (drop m seg1)") auto
    have "length (take m seg1) < length seg"
      using m len1 by simp
    then have PL: "P (ni + 1) l (take m seg1) (nsL, bbL, segL)"
      using less [of "take m seg1" "ni + 1" l] L by simp
    have "length (drop m seg1) < length seg"
      using m len1 by simp
    then have PR: "P (ni + 1 + length nsL) (l + m) (drop m seg1) (nsR, bbR, segR)"
      using less [of "drop m seg1" "ni + 1 + length nsL" "l + m"] R by simp
    show ?thesis
      using nodec [OF False ms m L R PL PR] build_rec_internal [OF False ls sp L R]
      by simp
  qed
qed

lemma build_rec_shape:
  assumes "0 < ls" and "build_rec ds pick ls ni l seg = (ns, bs, seg')"
  shows "ns \<noteq> [] \<and> length bs = length ns \<and> mset seg' = mset seg"
proof -
  let ?P = "\<lambda>(ni::nat) (l::nat) seg res. fst res \<noteq> [] \<and>
      length (fst (snd res)) = length (fst res) \<and> mset (snd (snd res)) = mset seg"
  have "?P ni l seg (build_rec ds pick ls ni l seg)"
  proof (rule build_rec_induct [where P = ?P, OF assms(1)], goal_cases)
    case (1 ni l seg)
    then show ?case by simp
  next
    case (2 ni l seg dim val seg1 m nsL bbL segL nsR bbR segR)
    have "mset (take m seg1) + mset (drop m seg1) = mset seg"
      using 2(2) by (metis append_take_drop_id mset_append)
    then show ?case
      using 2 by simp
  qed
  then show ?thesis
    using assms(2) by simp
qed

lemma node_ok_mono:
  "node_ok ls n hi l r nd \<Longrightarrow> hi \<le> hi' \<Longrightarrow> l' \<le> l \<Longrightarrow> r \<le> r' \<Longrightarrow> node_ok ls n hi' l' r' nd"
  by (cases nd) auto

lemma preorder_nth:
  "(x # L @ R) ! k =
   (if k = 0 then x else if k \<le> length L then L ! (k - 1) else R ! (k - 1 - length L))"
  by (auto simp: nth_Cons' nth_append)

lemma build_rec_nodes:
  assumes "0 < ls" and "build_rec ds pick ls ni l seg = (ns, bs, seg')"
  shows "\<forall>k<length ns. node_ok ls (ni + k) (ni + length ns) l (l + length seg) (ns ! k)"
proof -
  let ?P = "\<lambda>(ni::nat) (l::nat) (seg::DescriptorAssociation list)
      (res::Node list \<times> BoundingBox list \<times> DescriptorAssociation list).
      \<forall>k<length (fst res).
        node_ok ls (ni + k) (ni + length (fst res)) l (l + length seg) (fst res ! k)"
  have "?P ni l seg (build_rec ds pick ls ni l seg)"
  proof (rule build_rec_induct [where P = ?P, OF assms(1)], goal_cases)
    case (1 ni l seg)
    then show ?case by simp
  next
    case (2 ni l seg dim val seg1 m nsL bbL segL nsR bbR segR)
    note I = 2
    have len1: "length seg1 = length seg"
      using I(2) by (rule mset_eq_length)
    have neL: "nsL \<noteq> []" and neR: "nsR \<noteq> []"
      using build_rec_shape [OF assms(1) I(5)] build_rec_shape [OF assms(1) I(6)] by simp_all
    have lenL: "length (take m seg1) = m" and lenR: "length (drop m seg1) = length seg - m"
      using I(4) len1 by simp_all
    let ?ns = "Internal (ni + 1 + length nsL) dim val # nsL @ nsR"
    have "node_ok ls (ni + k) (ni + length ?ns) l (l + length seg) (?ns ! k)"
      if k: "k < length ?ns" for k
    proof -
      consider "k = 0" | "1 \<le> k \<and> k \<le> length nsL" | "length nsL < k"
        by linarith
      then show ?thesis
      proof cases
        case 1
        then show ?thesis
          using neL neR by (simp add: Suc_lessI)
      next
        case 2
        then have a: "?ns ! k = nsL ! (k - 1)" and b: "k - 1 < length nsL"
          by (auto simp: preorder_nth)
        have "node_ok ls (ni + 1 + (k - 1)) (ni + 1 + length nsL) l (l + m) (nsL ! (k - 1))"
          using I(7) b lenL by simp
        then have "node_ok ls (ni + k) (ni + length ?ns) l (l + length seg) (nsL ! (k - 1))"
          using I(4) 2 by (auto elim!: node_ok_mono)
        then show ?thesis
          using a by simp
      next
        case 3
        then have a: "?ns ! k = nsR ! (k - 1 - length nsL)"
          and b: "k - 1 - length nsL < length nsR"
          using k by (simp_all add: preorder_nth)
        have "node_ok ls (ni + 1 + length nsL + (k - 1 - length nsL))
            (ni + 1 + length nsL + length nsR) (l + m) (l + m + (length seg - m))
            (nsR ! (k - 1 - length nsL))"
          using I(8) b lenR by simp
        moreover have "ni + 1 + length nsL + (k - 1 - length nsL) = ni + k"
          using 3 by simp
        ultimately have "node_ok ls (ni + k) (ni + length ?ns) l (l + length seg)
            (nsR ! (k - 1 - length nsL))"
          using I(4) by (auto elim!: node_ok_mono)
        then show ?thesis
          using a by simp
      qed
    qed
    then show ?case by simp
  qed
  then show ?thesis
    using assms(2) by simp
qed

lemma byte_le_255: "(x :: 8 word) \<le> 255"
  using unsigned_less [of x, where ?'a = nat] by (simp add: word_le_nat_alt)

lemma fold_box_bounds:
  "bmin (fold (\<lambda>a B. Union B (point_box (ds ! global_index a))) seg B) i \<le> bmin B i \<and>
   bmax B i \<le> bmax (fold (\<lambda>a B. Union B (point_box (ds ! global_index a))) seg B) i \<and>
   (\<forall>a\<in>set seg.
      bmin (fold (\<lambda>a B. Union B (point_box (ds ! global_index a))) seg B) i
        \<le> (ds ! global_index a) i \<and>
      (ds ! global_index a) i
        \<le> bmax (fold (\<lambda>a B. Union B (point_box (ds ! global_index a))) seg B) i)"
proof (induction seg arbitrary: B)
  case Nil
  then show ?case by simp
next
  case (Cons a seg)
  let ?B = "Union B (point_box (ds ! global_index a))"
  have "bmin ?B i \<le> bmin B i" "bmin ?B i \<le> (ds ! global_index a) i"
    "bmax B i \<le> bmax ?B i" "(ds ! global_index a) i \<le> bmax ?B i"
    by (simp_all add: Union_def point_box_def)
  then show ?case
    using Cons.IH [of ?B] by (auto intro: order_trans)
qed

lemma fold_box_attained:
  "(bmin (fold (\<lambda>a B. Union B (point_box (ds ! global_index a))) seg B) i = bmin B i \<or>
    (\<exists>a\<in>set seg.
       bmin (fold (\<lambda>a B. Union B (point_box (ds ! global_index a))) seg B) i
         = (ds ! global_index a) i)) \<and>
   (bmax (fold (\<lambda>a B. Union B (point_box (ds ! global_index a))) seg B) i = bmax B i \<or>
    (\<exists>a\<in>set seg.
       bmax (fold (\<lambda>a B. Union B (point_box (ds ! global_index a))) seg B) i
         = (ds ! global_index a) i))"
proof (induction seg arbitrary: B)
  case Nil
  then show ?case by simp
next
  case (Cons a seg)
  let ?B = "Union B (point_box (ds ! global_index a))"
  have "bmin ?B i = bmin B i \<or> bmin ?B i = (ds ! global_index a) i"
    "bmax ?B i = bmax B i \<or> bmax ?B i = (ds ! global_index a) i"
    by (auto simp: Union_def point_box_def min_def max_def)
  then show ?case
    using Cons.IH [of ?B] by auto
qed

lemma in_box_GetBoundingBox:
  "a \<in> set seg \<Longrightarrow> in_box (GetBoundingBox ds seg) (ds ! global_index a)"
  using fold_box_bounds [of ds seg empty_box]
  by (simp add: in_box_iff GetBoundingBox_def)

lemma box_contains_GetBoundingBox:
  assumes "set sub \<subseteq> set seg"
  shows "box_contains (GetBoundingBox ds seg) (GetBoundingBox ds sub)"
proof -
  have "bmin (GetBoundingBox ds seg) i \<le> bmin (GetBoundingBox ds sub) i \<and>
        bmax (GetBoundingBox ds sub) i \<le> bmax (GetBoundingBox ds seg) i" for i
    using fold_box_attained [of ds sub empty_box i] fold_box_bounds [of ds seg empty_box i] assms
    unfolding GetBoundingBox_def
    by (auto simp: empty_box_def byte_le_255)
  then show ?thesis
    by (simp add: box_contains_iff)
qed

lemma build_rec_root_box:
  assumes "0 < ls" and "build_rec ds pick ls ni l seg = (ns, bs, seg')"
  shows "bs ! 0 = GetBoundingBox ds seg"
proof -
  let ?P = "\<lambda>(ni::nat) (l::nat) (seg::DescriptorAssociation list)
      (res::Node list \<times> BoundingBox list \<times> DescriptorAssociation list).
      fst (snd res) ! 0 = GetBoundingBox ds seg"
  have "?P ni l seg (build_rec ds pick ls ni l seg)"
    by (rule build_rec_induct [where P = ?P, OF assms(1)]) simp_all
  then show ?thesis
    using assms(2) by simp
qed

lemma build_rec_internal_boxes:
  assumes "0 < ls" and "build_rec ds pick ls ni l seg = (ns, bs, seg')"
  shows "\<forall>k<length ns. \<forall>r d v. ns ! k = Internal r d v \<longrightarrow>
           box_contains (bs ! k) (bs ! (k + 1)) \<and> box_contains (bs ! k) (bs ! (r - ni))"
proof -
  let ?P = "\<lambda>(ni::nat) (l::nat) (seg::DescriptorAssociation list)
      (res::Node list \<times> BoundingBox list \<times> DescriptorAssociation list).
      \<forall>k<length (fst res). \<forall>r d v. fst res ! k = Internal r d v \<longrightarrow>
        box_contains (fst (snd res) ! k) (fst (snd res) ! (k + 1)) \<and>
        box_contains (fst (snd res) ! k) (fst (snd res) ! (r - ni))"
  have "?P ni l seg (build_rec ds pick ls ni l seg)"
  proof (rule build_rec_induct [where P = ?P, OF assms(1)], goal_cases)
    case (1 ni l seg)
    then show ?case by simp
  next
    case (2 ni l seg dim val seg1 m nsL bbL segL nsR bbR segR)
    note I = 2
    have shL: "nsL \<noteq> []" "length bbL = length nsL"
      and shR: "nsR \<noteq> []" "length bbR = length nsR"
      using build_rec_shape [OF assms(1) I(5)] build_rec_shape [OF assms(1) I(6)] by simp_all
    have okL: "\<forall>k<length nsL. node_ok ls (ni + 1 + k) (ni + 1 + length nsL) l
        (l + length (take m seg1)) (nsL ! k)"
      using build_rec_nodes [OF assms(1) I(5)] .
    have okR: "\<forall>k<length nsR. node_ok ls (ni + 1 + length nsL + k)
        (ni + 1 + length nsL + length nsR) (l + m) (l + m + length (drop m seg1)) (nsR ! k)"
      using build_rec_nodes [OF assms(1) I(6)] .
    have rootL: "bbL ! 0 = GetBoundingBox ds (take m seg1)"
      using build_rec_root_box [OF assms(1) I(5)] .
    have rootR: "bbR ! 0 = GetBoundingBox ds (drop m seg1)"
      using build_rec_root_box [OF assms(1) I(6)] .
    have sets: "set (take m seg1) \<subseteq> set seg" "set (drop m seg1) \<subseteq> set seg"
      using mset_eq_setD [OF I(2)] set_take_subset [of m seg1] set_drop_subset [of m seg1]
      by auto
    let ?ns = "Internal (ni + 1 + length nsL) dim val # nsL @ nsR"
    let ?bs = "GetBoundingBox ds seg # bbL @ bbR"
    have "box_contains (?bs ! k) (?bs ! (k + 1)) \<and> box_contains (?bs ! k) (?bs ! (r - ni))"
      if k: "k < length ?ns" and nd: "?ns ! k = Internal r d v" for k r d v
    proof -
      consider "k = 0" | "1 \<le> k \<and> k \<le> length nsL" | "length nsL < k"
        by linarith
      then show ?thesis
      proof cases
        case 1
        then have r: "r = ni + 1 + length nsL"
          using nd by simp
        have "0 < length bbL"
          using shL by (cases bbL) auto
        then have "?bs ! (k + 1) = bbL ! 0"
          using 1 by (simp add: nth_append)
        moreover have "?bs ! (r - ni) = bbR ! 0"
          using r shL by (simp add: nth_append)
        ultimately show ?thesis
          using 1 rootL rootR sets by (simp add: box_contains_GetBoundingBox)
      next
        case 2
        then have kL: "k - 1 < length nsL"
          by auto
        have ndL: "nsL ! (k - 1) = Internal r d v"
          using nd 2 by (simp add: preorder_nth)
        have ok: "ni + 1 + (k - 1) + 1 < ni + 1 + length nsL" "ni + 1 + (k - 1) < r"
          "r < ni + 1 + length nsL"
          using okL kL ndL by (metis node_ok.simps(1))+
        have ih: "box_contains (bbL ! (k - 1)) (bbL ! (k - 1 + 1)) \<and>
            box_contains (bbL ! (k - 1)) (bbL ! (r - (ni + 1)))"
          using I(7) kL ndL by simp
        have "?bs ! k = bbL ! (k - 1)"
          using 2 shL by (simp add: preorder_nth)
        moreover have "k < length bbL"
          using ok(1) 2 shL by linarith
        then have "?bs ! (k + 1) = bbL ! (k - 1 + 1)"
          using 2 by (simp add: nth_append)
        moreover have "r - ni - 1 < length bbL" "0 < r - ni"
          using ok(2,3) shL by linarith+
        then have "?bs ! (r - ni) = bbL ! (r - (ni + 1))"
          by (simp add: nth_Cons' nth_append)
        ultimately show ?thesis
          using ih by simp
      next
        case 3
        let ?j = "k - 1 - length nsL"
        have kR: "?j < length nsR"
          using 3 k by simp
        have ndR: "nsR ! ?j = Internal r d v"
          using nd 3 by (simp add: preorder_nth)
        have ok: "ni + 1 + length nsL + ?j + 1 < ni + 1 + length nsL + length nsR"
          "ni + 1 + length nsL + ?j < r" "r < ni + 1 + length nsL + length nsR"
          using okR kR ndR by (metis node_ok.simps(1))+
        have ih: "box_contains (bbR ! ?j) (bbR ! (?j + 1)) \<and>
            box_contains (bbR ! ?j) (bbR ! (r - (ni + 1 + length nsL)))"
          using I(8) kR ndR by simp
        have "?bs ! k = bbR ! ?j"
          using 3 shL by (simp add: preorder_nth)
        moreover have "k - length nsL = ?j + 1"
          using 3 by linarith
        then have "?bs ! (k + 1) = bbR ! (?j + 1)"
          using 3 shL by (simp add: nth_append)
        moreover have "length bbL < r - ni"
          using ok(2) 3 shL by linarith
        then have "?bs ! (r - ni) = bbR ! (r - (ni + 1 + length nsL))"
          using shL by (simp add: nth_Cons' nth_append)
        ultimately show ?thesis
          using ih by simp
      qed
    qed
    then show ?case by simp
  qed
  then show ?thesis
    using assms(2) by simp
qed

lemma build_rec_leaf_boxes:
  assumes "0 < ls" and "build_rec ds pick ls ni l seg = (ns, bs, seg')"
  shows "\<forall>k<length ns. \<forall>b e. ns ! k = LeafNode b e \<longrightarrow>
           (\<forall>j. b \<le> j \<and> j < e \<longrightarrow> in_box (bs ! k) (ds ! global_index (seg' ! (j - l))))"
proof -
  let ?P = "\<lambda>(ni::nat) (l::nat) (seg::DescriptorAssociation list)
      (res::Node list \<times> BoundingBox list \<times> DescriptorAssociation list).
      \<forall>k<length (fst res). \<forall>b e. fst res ! k = LeafNode b e \<longrightarrow>
        (\<forall>j. b \<le> j \<and> j < e \<longrightarrow>
           in_box (fst (snd res) ! k) (ds ! global_index (snd (snd res) ! (j - l))))"
  have "?P ni l seg (build_rec ds pick ls ni l seg)"
  proof (rule build_rec_induct [where P = ?P, OF assms(1)], goal_cases)
    case (1 ni l seg)
    have "in_box (GetBoundingBox ds seg) (ds ! global_index (seg ! (j - l)))"
      if "l \<le> j" "j < l + length seg" for j
      using that by (intro in_box_GetBoundingBox) simp
    then show ?case by simp
  next
    case (2 ni l seg dim val seg1 m nsL bbL segL nsR bbR segR)
    note I = 2
    have len1: "length seg1 = length seg"
      using I(2) by (rule mset_eq_length)
    have shL: "nsL \<noteq> []" "length bbL = length nsL" "length segL = m"
      using build_rec_shape [OF assms(1) I(5)] I(4) len1 mset_eq_length [of segL "take m seg1"]
      by simp_all
    have okL: "\<forall>k<length nsL. node_ok ls (ni + 1 + k) (ni + 1 + length nsL) l
        (l + length (take m seg1)) (nsL ! k)"
      using build_rec_nodes [OF assms(1) I(5)] .
    have okR: "\<forall>k<length nsR. node_ok ls (ni + 1 + length nsL + k)
        (ni + 1 + length nsL + length nsR) (l + m) (l + m + length (drop m seg1)) (nsR ! k)"
      using build_rec_nodes [OF assms(1) I(6)] .
    let ?ns = "Internal (ni + 1 + length nsL) dim val # nsL @ nsR"
    let ?bs = "GetBoundingBox ds seg # bbL @ bbR"
    have "in_box (?bs ! k) (ds ! global_index ((segL @ segR) ! (j - l)))"
      if k: "k < length ?ns" and nd: "?ns ! k = LeafNode b e" and j: "b \<le> j" "j < e"
      for k b e j
    proof -
      consider "k = 0" | "1 \<le> k \<and> k \<le> length nsL" | "length nsL < k"
        by linarith
      then show ?thesis
      proof cases
        case 1
        then show ?thesis using nd by simp
      next
        case 2
        then have kL: "k - 1 < length nsL"
          by auto
        have ndL: "nsL ! (k - 1) = LeafNode b e"
          using nd 2 by (simp add: preorder_nth)
        have ok: "l \<le> b" "e \<le> l + length (take m seg1)"
          using okL kL ndL by (metis node_ok.simps(2))+
        have "j - l < length segL"
          using ok j shL I(4) len1 by simp
        then have "(segL @ segR) ! (j - l) = segL ! (j - l)"
          by (simp add: nth_append)
        moreover have "?bs ! k = bbL ! (k - 1)"
          using 2 shL by (simp add: preorder_nth)
        ultimately show ?thesis
          using I(7) kL ndL j by simp
      next
        case 3
        let ?i = "k - 1 - length nsL"
        have kR: "?i < length nsR"
          using 3 k by simp
        have ndR: "nsR ! ?i = LeafNode b e"
          using nd 3 by (simp add: preorder_nth)
        have ok: "l + m \<le> b"
          using okR kR ndR by (metis node_ok.simps(2))
        have "(segL @ segR) ! (j - l) = segR ! (j - (l + m))"
          using ok j shL by (simp add: nth_append)
        moreover have "?bs ! k = bbR ! ?i"
          using 3 shL by (simp add: preorder_nth)
        ultimately show ?thesis
          using I(8) kR ndR j by simp
      qed
    qed
    then show ?case by simp
  qed
  then show ?thesis
    using assms(2) by simp
qed

lemma example_initial_list:
  "initial_list [0, 0, 0] 3 = [example_assoc 0, example_assoc 1, example_assoc 2]"
proof -
  have "[0..<3] = [0, 1, 2]" and "[0..<2] = [0, 1]"
    by (simp_all add: upt_rec)
  then show ?thesis
    by (simp add: initial_list_def example_assoc_def)
qed

lemma example_split_root:
  "split_range example_store example_pick 0 [example_assoc 0, example_assoc 1, example_assoc 2] =
   (0, 4, [example_assoc 0, example_assoc 1, example_assoc 2], 1)"
  by (simp add: split_range_def Partition_def example_pick_def example_store_def
      example_assoc_def unit_descriptor_def)

lemma example_split_right:
  "split_range example_store example_pick 2 [example_assoc 1, example_assoc 2] =
   (0, 4, [example_assoc 1, example_assoc 2], 1)"
  by (simp add: split_range_def Partition_def example_pick_def example_store_def
      example_assoc_def unit_descriptor_def)

lemma example_build_right:
  "build_rec example_store example_pick 1 2 1 [example_assoc 1, example_assoc 2] =
   ([Internal 4 0 4, LeafNode 1 2, LeafNode 2 3],
    [GetBoundingBox example_store [example_assoc 1, example_assoc 2],
     GetBoundingBox example_store [example_assoc 1],
     GetBoundingBox example_store [example_assoc 2]],
    [example_assoc 1, example_assoc 2])"
  using build_rec_internal [OF _ _ example_split_right, of 1 1
      "[LeafNode 1 2]" "[GetBoundingBox example_store [example_assoc 1]]" "[example_assoc 1]"
      "[LeafNode 2 3]" "[GetBoundingBox example_store [example_assoc 2]]" "[example_assoc 2]"]
  by (simp add: build_rec_leaf numeral_2_eq_2)

lemma example_build_rec:
  "build_rec example_store example_pick 1 0 0 [example_assoc 0, example_assoc 1, example_assoc 2] =
   (nodes example_tree, bbs example_tree, assocs example_tree)"
  using build_rec_internal [OF _ _ example_split_root, of 1 0
      "[LeafNode 0 1]" "[GetBoundingBox example_store [example_assoc 0]]" "[example_assoc 0]"
      "[Internal 4 0 4, LeafNode 1 2, LeafNode 2 3]"
      "[GetBoundingBox example_store [example_assoc 1, example_assoc 2],
        GetBoundingBox example_store [example_assoc 1],
        GetBoundingBox example_store [example_assoc 2]]"
      "[example_assoc 1, example_assoc 2]"]
    example_build_right
  by (simp add: build_rec_leaf example_tree_def numeral_2_eq_2)

lemma example_build: "Build example_pick example_store [0, 0, 0] 3 1 = Some example_tree"
  using example_build_rec by (simp add: Build_def example_initial_list example_tree_def)

lemma Build_Some:
  assumes "Build pick ds image_indexes n ls = Some t"
  shows "0 < n" and "0 < ls"
    and "build_rec ds pick ls 0 0 (initial_list image_indexes n) = (nodes t, bbs t, assocs t)"
    and "descriptors t = ds" and "dcount t = n"
  using assms by (auto simp: Build_def split: if_splits prod.splits)

lemma length_initial_list: "length (initial_list image_indexes n) = n"
  by (simp add: initial_list_def)

lemma Build_nodes:
  assumes "Build pick ds image_indexes n ls = Some t"
  shows "nodes t \<noteq> []" and "length (bbs t) = length (nodes t)" and "length (assocs t) = n"
    and "k < length (nodes t) \<Longrightarrow> node_ok ls k (length (nodes t)) 0 n (nodes t ! k)"
proof -
  note b = Build_Some [OF assms]
  show "nodes t \<noteq> []" and "length (bbs t) = length (nodes t)"
    using build_rec_shape [OF b(2) b(3)] by simp_all
  show "length (assocs t) = n"
    using build_rec_shape [OF b(2) b(3)] mset_eq_length [of "assocs t"] length_initial_list
    by metis
  show "k < length (nodes t) \<Longrightarrow> node_ok ls k (length (nodes t)) 0 n (nodes t ! k)"
    using build_rec_nodes [OF b(2) b(3)] by (simp add: length_initial_list)
qed

text \<open>
  Claim C3. In a tree that \<open>Build\<close> returns, node 0 is the root, and for every internal
  node \<open>n\<close>, \<open>Left\<close> returns \<open>n + 1\<close> and \<open>Right\<close> returns an index greater than \<open>n\<close>;
  both children are nodes of the tree.
\<close>

theorem built_tree_links:
  assumes "Build pick ds image_indexes descriptor_count leaf_size = Some t"
  shows "Root t = 0 \<and> 0 < NodeCount t \<and>
         (n < NodeCount t \<and> \<not> leaf (nodes t ! n) \<longrightarrow>
            Left t n = Inr (n + 1) \<and> n + 1 < NodeCount t \<and>
            (\<exists>r. Right t n = Inr r \<and> n < r \<and> r < NodeCount t))"
proof -
  have "Left t n = Inr (n + 1) \<and> n + 1 < NodeCount t \<and>
        (\<exists>r. Right t n = Inr r \<and> n < r \<and> r < NodeCount t)"
    if n: "n < NodeCount t" and nl: "\<not> leaf (nodes t ! n)"
  proof -
    obtain r d v where nd: "nodes t ! n = Internal r d v"
      using nl by (cases "nodes t ! n") auto
    have "node_ok leaf_size n (length (nodes t)) 0 descriptor_count (nodes t ! n)"
      using Build_nodes(4) [OF assms] n by (simp add: NodeCount_def)
    then show ?thesis
      using n nd by (simp add: Left_def Right_def at_vec_def NodeCount_def)
  qed
  moreover have "0 < NodeCount t"
    using Build_nodes(1) [OF assms] by (simp add: NodeCount_def)
  ultimately show ?thesis
    by (simp add: Root_def)
qed

theorem built_tree_links_witness:
  "Build example_pick example_store [0, 0, 0] 3 1 = Some example_tree \<and>
   Root example_tree = 0 \<and> NodeCount example_tree = 5 \<and>
   \<not> leaf (nodes example_tree ! 0) \<and> \<not> leaf (nodes example_tree ! 2) \<and>
   Left example_tree 0 = Inr 1 \<and> Right example_tree 0 = Inr 2 \<and>
   Left example_tree 2 = Inr 3 \<and> Right example_tree 2 = Inr 4"
  using example_build built_tree_links [OF example_build, of 0]
    built_tree_links [OF example_build, of 2]
  by (simp add: example_tree_def NodeCount_def Right_def at_vec_def)

text \<open>
  Claim C5. In a tree that \<open>Build\<close> returns, every node has a bounding box; the box of
  an internal node contains, component by component, the boxes of its two children, and
  the box of a leaf contains every descriptor that the associations of its range refer
  to.
\<close>

theorem built_tree_boxes:
  assumes "Build pick ds image_indexes descriptor_count leaf_size = Some t"
  shows "length (bbs t) = NodeCount t \<and>
         (n < NodeCount t \<longrightarrow> BB t n = Inr (bbs t ! n)) \<and>
         (n < NodeCount t \<and> nodes t ! n = Internal r d v \<longrightarrow>
            box_contains (bbs t ! n) (bbs t ! (n + 1)) \<and> box_contains (bbs t ! n) (bbs t ! r)) \<and>
         (n < NodeCount t \<and> nodes t ! n = LeafNode b e \<and> b \<le> j \<and> j < e \<longrightarrow>
            in_box (bbs t ! n) (descriptors t ! global_index (assocs t ! j)))"
proof -
  note B = Build_Some [OF assms]
  have len: "length (bbs t) = NodeCount t"
    using Build_nodes(2) [OF assms] by (simp add: NodeCount_def)
  have "box_contains (bbs t ! n) (bbs t ! (n + 1)) \<and> box_contains (bbs t ! n) (bbs t ! r)"
    if "n < NodeCount t" "nodes t ! n = Internal r d v"
    using build_rec_internal_boxes [OF B(2) B(3)] that by (simp add: NodeCount_def)
  moreover have "in_box (bbs t ! n) (descriptors t ! global_index (assocs t ! j))"
    if "n < NodeCount t" "nodes t ! n = LeafNode b e" "b \<le> j" "j < e"
    using build_rec_leaf_boxes [OF B(2) B(3)] that B(4) by (simp add: NodeCount_def)
  ultimately show ?thesis
    using len by (simp add: BB_def at_vec_def)
qed

theorem built_tree_boxes_witness:
  "Build example_pick example_store [0, 0, 0] 3 1 = Some example_tree \<and>
   NodeCount example_tree = 5 \<and> nodes example_tree ! 0 = Internal 2 0 4 \<and>
   nodes example_tree ! 3 = LeafNode 1 2 \<and>
   box_contains (bbs example_tree ! 0) (bbs example_tree ! 1) \<and>
   box_contains (bbs example_tree ! 0) (bbs example_tree ! 2) \<and>
   in_box (bbs example_tree ! 3) (descriptors example_tree ! global_index (assocs example_tree ! 1))"
  using example_build built_tree_boxes [OF example_build, of 0 2 0 4]
    built_tree_boxes [OF example_build, of 3 _ _ _ 1 2 1]
  by (simp add: example_tree_def NodeCount_def)

section \<open>Facts about the calibration routine\<close>

lemma size_t_sub_one:
  assumes "0 < n" and "n < 2 ^ 64"
  shows "size_t_sub n 1 = n - 1"
proof -
  have "(of_nat n :: 64 word) - 1 = of_nat (n - 1)"
    using assms(1) by (simp add: of_nat_diff)
  moreover have "unat (of_nat (n - 1) :: 64 word) = n - 1"
    using assms(2) by (simp add: unat_of_nat)
  ultimately show ?thesis
    by (simp add: size_t_sub_def)
qed

lemma size_t_sub_zero_one: "size_t_sub 0 1 = 2 ^ 64 - 1"
  by (simp add: size_t_sub_def unsigned_minus_1_eq_mask mask_eq_exp_minus_1)

lemma bracket_loop_in_range:
  assumes "bound \<le> length grp" and "i \<le> bound"
  shows "bracket_loop E cq prev grp bound i st =
         Inr (fold (bracket_rows E cq prev) (map ((!) grp) [i..<bound]) st)"
  using assms
proof (induction "bound - i" arbitrary: i st)
  case 0
  then show ?case by (subst bracket_loop.simps) simp
next
  case (Suc d)
  then have lt: "i < bound" and "i < length grp" by auto
  have step: "[i..<bound] = i # [Suc i..<bound]"
    using lt by (simp add: upt_conv_Cons)
  have "d = bound - Suc i" using Suc.hyps(2) by simp
  then have "bracket_loop E cq prev grp bound (Suc i) st' =
      Inr (fold (bracket_rows E cq prev) (map ((!) grp) [Suc i..<bound]) st')" for st'
    using Suc.hyps(1) Suc.prems lt by simp
  then show ?case
    using lt \<open>i < length grp\<close>
    by (subst bracket_loop.simps) (simp add: step)
qed

lemma bracket_loop_nonempty:
  assumes "grp \<noteq> []" and "length grp < 2 ^ 64"
  shows "bracket_loop E cq prev grp (size_t_sub (length grp) 1) 0 st =
         Inr (fold (bracket_rows E cq prev) (butlast grp) st)"
proof -
  have b: "size_t_sub (length grp) 1 = length grp - 1"
    using assms size_t_sub_one [of "length grp"] by simp
  have "butlast grp = take (length grp - 1) (map ((!) grp) [0..<length grp])"
    by (simp add: butlast_conv_take map_nth)
  then have "map ((!) grp) [0..<length grp - 1] = butlast grp"
    by (simp add: take_map)
  then show ?thesis
    using bracket_loop_in_range [of "length grp - 1" grp 0 E cq prev st] b by simp
qed

lemma bracket_loop_empty:
  "bracket_loop E cq prev [] (size_t_sub (length ([] :: 'f ImageSamples list)) 1) 0 st =
   Inl GroupIndexOutOfBounds"
  using size_t_sub_zero_one
  by (subst bracket_loop.simps) simp

lemma count_sample_channel [simp]:
  "count (sample_channel E cq prev br sampleId channel st) = count st"
  by (simp add: sample_channel_def Let_def)

lemma count_fold_sample_channel [simp]:
  "count (fold (sample_channel E cq prev br sampleId) cs st) = count st"
  by (induction cs arbitrary: st) simp_all

lemma count_sample_step [simp]:
  "count (sample_step E cq prev br sampleId st) = count st + 1"
  by (simp add: sample_step_def Let_def)

lemma count_fold_sample_step:
  "count (fold (sample_step E cq prev br) ks st) = count st + length ks"
  by (induction ks arbitrary: st) simp_all

lemma count_bracket_rows:
  "count (bracket_rows E cq prev br st) = count st + length (colors br)"
  by (simp add: bracket_rows_def count_fold_sample_step)

lemma count_fold_bracket_rows:
  "count (fold (bracket_rows E cq prev) brs st) =
   count st + sum_list (map (\<lambda>br. length (colors br)) brs)"
  by (induction brs arbitrary: st) (simp_all add: count_bracket_rows)

lemma count_group_rows:
  "count (group_rows E cq samples prev st) =
   count st + sum_list (map (\<lambda>grp. sum_list (map (\<lambda>br. length (colors br)) (butlast grp))) samples)"
  by (induction samples arbitrary: prev st) (simp_all add: count_fold_bracket_rows)

lemma group_loop_rows:
  assumes "\<forall>grp\<in>set samples. length grp < 2 ^ 64"
  shows "group_loop E cq samples prev st =
         (if \<forall>grp\<in>set samples. grp \<noteq> [] then Inr (group_rows E cq samples prev st)
          else Inl GroupIndexOutOfBounds)"
  using assms
proof (induction samples arbitrary: prev st)
  case Nil
  then show ?case by simp
next
  case (Cons grp rest)
  show ?case
  proof (cases "grp = []")
    case True
    then show ?thesis
      using bracket_loop_empty [of E cq prev st] by simp
  next
    case False
    have len: "length grp < 2 ^ 64" using Cons.prems by simp
    have rest: "\<forall>g\<in>set rest. length g < 2 ^ 64" using Cons.prems by simp
    show ?thesis
      using False Cons.IH [OF rest] bracket_loop_nonempty [OF False len, of E cq prev st]
      by auto
  qed
qed


lemma channels_upt: "[0..<channelsCount] = [0, 1, 2]"
  by (simp add: channelsCount_def upt_rec)

lemma curve_data_setValue:
  "curve_data (setValue index channel v r) c k =
   (if c = channel \<and> k = index then v else curve_data r c k)"
  by (simp add: setValue_def)

lemma curve_data_copy_result:
  "curve_data (copy_result cq channel x r) c k =
   (if c = channel \<and> k < cq then x k else curve_data r c k)"
  unfolding copy_result_def
  by (induction cq) (auto simp: curve_data_setValue)


text \<open>
  Claim C10. The bracket loop of a group runs over all brackets but the last, so the
  rows of the system are those of \<open>group_rows\<close> and the last bracket of a group adds
  none; and since the bound \<^verbatim>\<open>group.size() - 1\<close> wraps to \<open>2\<^sup>6\<^sup>4 - 1\<close> for an empty
  group, the reads \<^verbatim>\<open>group[bracketId]\<close> stay in bounds exactly when every group is
  non-empty.
\<close>

theorem measurement_loop_skips_last_bracket:
  assumes "\<forall>grp\<in>set samples. length grp < 2 ^ 64"
  shows "group_loop E cq samples prev st =
           (if \<forall>grp\<in>set samples. grp \<noteq> [] then Inr (group_rows E cq samples prev st)
            else Inl GroupIndexOutOfBounds) \<and>
         count (group_rows E cq samples prev st) =
           count st +
           sum_list (map (\<lambda>grp. sum_list (map (\<lambda>br. length (colors br)) (butlast grp))) samples)"
  using group_loop_rows [OF assms] count_group_rows by blast

lemma size_t_sub_wraps: "size_t_sub 0 2 = 2 ^ 64 - 2" "size_t_sub 1 2 = 2 ^ 64 - 1"
  by (simp_all add: size_t_sub_def unsigned_minus_1_eq_mask mask_eq_exp_minus_1)

lemma size_t_sub_two:
  assumes "2 \<le> n" and "n < 2 ^ 64"
  shows "size_t_sub n 2 = n - 2"
proof -
  have "(of_nat n :: 64 word) - 2 = of_nat (n - 2)"
    using assms(1) by (simp add: of_nat_diff)
  moreover have "unat (of_nat (n - 2) :: 64 word) = n - 2"
    using assms(2) by (simp add: unat_of_nat)
  ultimately show ?thesis
    by (simp add: size_t_sub_def)
qed


lemma smoothness_in_range:
  assumes "2 \<le> cq" and "cq < 2 ^ 64"
  shows "smoothness E lambda cq st = Inr (fold (smooth_step E lambda) [0..<cq - 2] st)"
  using assms size_t_sub_two [OF assms] by (simp add: smoothness_def smoothness_rows_def)




lemma example_samples_bound: "\<forall>grp\<in>set example_samples. length grp < 2 ^ 64"
  by (simp add: example_samples_def)

lemma example_group_loop:
  "group_loop example_env 2 example_samples 0 (initial_assembly example_env) =
   Inr (group_rows example_env 2 example_samples 0 (initial_assembly example_env))"
  using group_loop_rows [OF example_samples_bound] by (simp add: example_samples_def)

lemma example_assemble: "assemble example_env 2 1 example_samples = Inr example_state"
  by (simp add: assemble_def smoothness_def example_group_loop example_state_def)

lemma example_first_triplet:
  "channel < 3 \<Longrightarrow> tvalue (hd (tripletList_array example_state channel)) = int channel"
  by (auto simp: example_state_def smoothness_rows_def size_t_sub_def fix_scale_def channels_upt
      example_samples_def bracket_rows_def sample_step_def sample_channel_def
      initial_assembly_def example_bracket_def example_env_def Let_def)

theorem measurement_loop_skips_last_bracket_witness:
  "list_all (\<lambda>grp. length grp < 2 ^ 64) example_samples \<and>
   list_all (\<lambda>grp. length grp < 2 ^ 64) [[example_bracket 1], []] \<and>
   (\<exists>st. group_loop example_env 2 example_samples 0 (initial_assembly example_env) = Inr st \<and>
         count st = 1) \<and>
   group_loop example_env 2 [[example_bracket 1], []] 0 (initial_assembly example_env) =
     Inl GroupIndexOutOfBounds"
proof -
  have a: "\<forall>grp\<in>set example_samples. length grp < 2 ^ 64"
    by (simp add: example_samples_def)
  have b: "\<forall>grp\<in>set [[example_bracket 1], []]. length grp < 2 ^ 64"
    by simp
  show ?thesis
    using a b
      measurement_loop_skips_last_bracket [OF a, of example_env 2 0 "initial_assembly example_env"]
      measurement_loop_skips_last_bracket [OF b, of example_env 2 0 "initial_assembly example_env"]
    by (simp add: example_samples_def example_bracket_def count_bracket_rows
        initial_assembly_def)
qed


text \<open>
  Claim C9. The response that \<open>process\<close> leaves does not depend on the response it was
  given: line 63 replaces it by a fresh curve before the system is assembled. When the
  system is assembled (so \<open>channelQuantization\<close> is at least 2) and the solver fails for
  channel \<open>c\<close>, after succeeding for the channels before it, \<open>process\<close> returns \<open>false\<close>
  and leaves the fresh curve with the solutions of the channels before \<open>c\<close> written
  into it.
\<close>

theorem process_discards_previous_response:
  "process E fresh solver samples cq lambda response =
     process E fresh solver samples cq lambda response' \<and>
   (assemble E cq lambda samples = Inr st \<and> 2 \<le> cq \<and> c < channelsCount \<and>
    (\<forall>c'<c. solver_success solver (channel_system cq samples st c')) \<and>
    \<not> solver_success solver (channel_system cq samples st c) \<longrightarrow>
    process E fresh solver samples cq lambda response =
      Inr (False,
           fold (\<lambda>channel. copy_result cq channel
                   (solve solver (channel_system cq samples st channel)))
             [0..<c] (fresh cq)))"
proof -
  have same: "process E fresh solver samples cq lambda response =
      process E fresh solver samples cq lambda response'"
    by (simp add: process_def)
  have failing: "process E fresh solver samples cq lambda response =
      Inr (False,
           fold (\<lambda>channel. copy_result cq channel
                   (solve solver (channel_system cq samples st channel)))
             [0..<c] (fresh cq))"
    if asm: "assemble E cq lambda samples = Inr st"
      and c: "c < channelsCount"
      and before: "\<forall>c'<c. solver_success solver (channel_system cq samples st c')"
      and fails: "\<not> solver_success solver (channel_system cq samples st c)"
  proof -
    have "c = 0 \<or> c = 1 \<or> c = 2"
      using c unfolding channelsCount_def by arith
    then consider "c = 0" | "c = 1" | "c = 2"
      by blast
    then show ?thesis
    proof cases
      case 1
      then show ?thesis
        using asm fails
        by (auto simp: process_def channels_upt solver_success_def Let_def)
    next
      case 2
      then have "solver_success solver (channel_system cq samples st 0)"
        using before by simp
      then show ?thesis
        using asm fails 2
        by (auto simp: process_def channels_upt solver_success_def Let_def)
    next
      case 3
      then have "solver_success solver (channel_system cq samples st 0)"
        and "solver_success solver (channel_system cq samples st 1)"
        using before by simp_all
      moreover have "[0..<c] = [0, 1]"
        using 3 by (simp add: upt_rec)
      ultimately show ?thesis
        using asm fails 3
        by (auto simp: process_def channels_upt solver_success_def Let_def)
    qed
  qed
  show ?thesis
    using same failing by blast
qed

theorem process_discards_previous_response_witness:
  "assemble example_env 2 1 example_samples = Inr example_state \<and> (2 :: nat) \<le> 2 \<and>
   1 < channelsCount \<and>
   solver_success failing_solver (channel_system 2 example_samples example_state 0) \<and>
   \<not> solver_success failing_solver (channel_system 2 example_samples example_state 1) \<and>
   (\<exists>r. process example_env example_fresh failing_solver example_samples 2 1 example_previous =
          Inr (False, r) \<and>
        curve_data r 0 0 = 5 \<and> curve_data r 0 1 = 5 \<and> curve_data r 1 0 = 0 \<and>
        curve_data example_previous 0 0 = 7)"
proof -
  have one: "(1::nat) < channelsCount"
    by (simp add: channelsCount_def)
  have before: "\<forall>c'<1. solver_success failing_solver
      (channel_system 2 example_samples example_state c')"
    by (simp add: solver_success_def failing_solver_def channel_system_def example_first_triplet)
  have fails: "\<not> solver_success failing_solver
      (channel_system 2 example_samples example_state 1)"
    by (simp add: solver_success_def failing_solver_def channel_system_def example_first_triplet)
  have "process example_env example_fresh failing_solver example_samples 2 1 example_previous =
      Inr (False,
           fold (\<lambda>channel. copy_result 2 channel
                   (solve failing_solver (channel_system 2 example_samples example_state channel)))
             [0..<1] (example_fresh 2))"
    using process_discards_previous_response [of example_env example_fresh failing_solver
        example_samples 2 1 example_previous example_previous example_state 1]
      example_assemble one before fails
    by blast
  then show ?thesis
    using example_assemble one before fails
    by (simp add: curve_data_copy_result example_fresh_def example_previous_def failing_solver_def)
qed

end
